theory Spec2Isabelle
  imports Main "HOL-Library.Char_ord" "HOL-Library.List_Lexorder" "HOL-Library.Product_Lexorder"
begin

section \<open>Data model of \<^verbatim>\<open>lr0_parser.py\<close>\<close>

text \<open>
  A grammar symbol is a Python string. An item is the tuple \<^verbatim>\<open>(lhs, tuple(rhs), dot_pos)\<close>;
  an item set is a Python \<^verbatim>\<open>set\<close> of such tuples, modelled as a HOL set. The grammar is a
  Python dict from a non-terminal to the list of its alternatives; it is kept as an
  association list in insertion order, because \<^verbatim>\<open>follow\<close> iterates \<^verbatim>\<open>grammar.items()\<close>.
\<close>

type_synonym symbol = string
type_synonym production = "symbol list"
type_synonym item = "symbol \<times> production \<times> nat"
type_synonym grammar_t = "(symbol \<times> production list) list"

text \<open>
  The action tuples \<^verbatim>\<open>('shift', n)\<close>, \<^verbatim>\<open>('reduce', lhs, rhs)\<close> and \<^verbatim>\<open>('accept',)\<close> are the only
  values \<^verbatim>\<open>items\<close> ever stores in the action table.
\<close>

datatype action = Shift nat | Reduce symbol production | Accept

text \<open>
  The parse stack holds state numbers and symbols in one Python list. The tables are
  \<^verbatim>\<open>defaultdict(dict)\<close> objects whose outer keys are whatever is found on the stack, so the
  outer key type is the type of stack entries.
\<close>

datatype stack_entry = St nat | Sym symbol

type_synonym 'v table = "stack_entry \<rightharpoonup> (symbol \<rightharpoonup> 'v)"

datatype error = KeyError | IndexError | SyntaxError nat symbol

record parser =
  grammar :: grammar_t
  terminals :: "symbol list"
  non_terminals :: "symbol list"
  start_symbol :: symbol
  action_table :: "action table"
  goto_table :: "nat table"
  states :: "item set list"
  state_count :: nat

text \<open>\<^verbatim>\<open>LRParser.__init__\<close>: the end marker is appended to the terminals.\<close>

definition LRParser :: "grammar_t \<Rightarrow> symbol list \<Rightarrow> symbol list \<Rightarrow> symbol \<Rightarrow> parser" where
  "LRParser g ts nts s =
     \<lparr>grammar = g, terminals = ts @ [''$''], non_terminals = nts, start_symbol = s,
      action_table = Map.empty, goto_table = Map.empty, states = [], state_count = 0\<rparr>"

subsection \<open>Dictionary access\<close>

text \<open>\<^verbatim>\<open>self.grammar.get(symbol, [])\<close>\<close>

definition grammar_get :: "parser \<Rightarrow> symbol \<Rightarrow> production list" where
  "grammar_get p symbol = (case map_of (grammar p) symbol of None \<Rightarrow> [] | Some ps \<Rightarrow> ps)"

text \<open>
  Reading \<^verbatim>\<open>table[k]\<close> from a \<^verbatim>\<open>defaultdict(dict)\<close>: a missing key \<^verbatim>\<open>k\<close> is inserted with an
  empty row, and that row is returned. \<open>touch\<close> is the table after the read, \<open>row\<close> the
  row that the read returns.
\<close>

definition touch :: "'v table \<Rightarrow> stack_entry \<Rightarrow> 'v table" where
  "touch t k = (case t k of None \<Rightarrow> t(k \<mapsto> Map.empty) | Some r \<Rightarrow> t)"

definition row :: "'v table \<Rightarrow> stack_entry \<Rightarrow> (symbol \<rightharpoonup> 'v)" where
  "row t k = (case t k of None \<Rightarrow> Map.empty | Some r \<Rightarrow> r)"

text \<open>\<^verbatim>\<open>table[k][symbol] = v\<close>\<close>

definition table_set :: "'v table \<Rightarrow> stack_entry \<Rightarrow> symbol \<Rightarrow> 'v \<Rightarrow> 'v table" where
  "table_set t k symbol v = t(k \<mapsto> (row t k)(symbol \<mapsto> v))"

text \<open>\<^verbatim>\<open>for symbol in symbols: table[k][symbol] = v\<close> for a Python set \<^verbatim>\<open>symbols\<close>; no read happens when the
  set is empty.\<close>

definition table_set_all :: "'v table \<Rightarrow> stack_entry \<Rightarrow> symbol set \<Rightarrow> 'v \<Rightarrow> 'v table" where
  "table_set_all t k symbols v =
     (if symbols = {} then t else t(k \<mapsto> (\<lambda>symbol. if symbol \<in> symbols then Some v else row t k symbol)))"

section \<open>Item set algebra\<close>

text \<open>
  One pass of the \<^verbatim>\<open>while added\<close> loop of \<^verbatim>\<open>closure\<close> collects \<^verbatim>\<open>new_items\<close>: for every item
  whose dot stands before a member of \<^verbatim>\<open>non_terminals\<close>, the items \<^verbatim>\<open>(next_symbol, production, 0)\<close>
  of that symbol's alternatives that are not yet in \<^verbatim>\<open>closure_set\<close>.
\<close>

definition item_new_items :: "parser \<Rightarrow> item \<Rightarrow> item set" where
  "item_new_items p it =
     (case it of (lhs, rhs, dot_pos) \<Rightarrow>
        if dot_pos < length rhs \<and> rhs ! dot_pos \<in> set (non_terminals p)
        then (\<lambda>production. (rhs ! dot_pos, production, 0)) ` set (grammar_get p (rhs ! dot_pos))
        else {})"

definition new_items :: "parser \<Rightarrow> item set \<Rightarrow> item set" where
  "new_items p closure_set = (\<Union>it\<in>closure_set. item_new_items p it) - closure_set"

text \<open>All items a closure pass can ever add: a finite set fixed by the grammar.\<close>

definition grammar_items :: "parser \<Rightarrow> item set" where
  "grammar_items p = (\<Union>(lhs, ps)\<in>set (grammar p). (\<lambda>production. (lhs, production, 0)) ` set ps)"

lemma finite_grammar_items: "finite (grammar_items p)"
  by (auto simp: grammar_items_def)

lemma item_new_items_subset: "item_new_items p it \<subseteq> grammar_items p"
proof
  fix x assume x_in: "x \<in> item_new_items p it"
  obtain lhs rhs dot_pos where it: "it = (lhs, rhs, dot_pos)"
    by (cases it) auto
  from x_in it obtain production where
    x: "x = (rhs ! dot_pos, production, 0)"
    and pr: "production \<in> set (grammar_get p (rhs ! dot_pos))"
    by (auto simp: item_new_items_def split: if_splits)
  from pr obtain ps where m: "map_of (grammar p) (rhs ! dot_pos) = Some ps"
    and pr': "production \<in> set ps"
    by (cases "map_of (grammar p) (rhs ! dot_pos)") (auto simp: grammar_get_def)
  from m have "(rhs ! dot_pos, ps) \<in> set (grammar p)"
    by (rule map_of_SomeD)
  with pr' x show "x \<in> grammar_items p"
    by (force simp: grammar_items_def)
qed

lemma new_items_subset: "new_items p c \<subseteq> grammar_items p - c"
  using item_new_items_subset by (fastforce simp: new_items_def)

text \<open>The \<^verbatim>\<open>while added\<close> loop: \<^verbatim>\<open>added\<close> is set exactly when \<^verbatim>\<open>new_items\<close> is non-empty.\<close>

function closure_loop :: "parser \<Rightarrow> item set \<Rightarrow> item set" where
  "closure_loop p closure_set =
     (if new_items p closure_set = {} then closure_set
      else closure_loop p (closure_set \<union> new_items p closure_set))"
  by pat_completeness auto
termination
proof (relation "measure (\<lambda>(p, c). card (grammar_items p - c))")
  show "wf (measure (\<lambda>(p, c). card (grammar_items p - c)))"
    by simp
next
  fix p :: parser and closure_set :: "item set"
  assume ne: "new_items p closure_set \<noteq> {}"
  have sub: "new_items p closure_set \<subseteq> grammar_items p - closure_set"
    by (rule new_items_subset)
  have "grammar_items p - (closure_set \<union> new_items p closure_set)
          \<subset> grammar_items p - closure_set"
    using ne sub by blast
  then have "card (grammar_items p - (closure_set \<union> new_items p closure_set))
          < card (grammar_items p - closure_set)"
    by (intro psubset_card_mono) (simp_all add: finite_grammar_items)
  then show "((p, closure_set \<union> new_items p closure_set), (p, closure_set))
          \<in> measure (\<lambda>(p, c). card (grammar_items p - c))"
    by simp
qed

declare closure_loop.simps [simp del]

definition closure :: "parser \<Rightarrow> item set \<Rightarrow> item set" where
  "closure p its = closure_loop p its"

definition goto_set :: "item set \<Rightarrow> symbol \<Rightarrow> item set" where
  "goto_set its symbol =
     (\<lambda>(lhs, rhs, dot_pos). (lhs, rhs, dot_pos + 1)) `
       {it \<in> its. case it of (lhs, rhs, dot_pos) \<Rightarrow> dot_pos < length rhs \<and> rhs ! dot_pos = symbol}"

definition goto :: "parser \<Rightarrow> item set \<Rightarrow> symbol \<Rightarrow> item set" where
  "goto p its symbol = closure p (goto_set its symbol)"

section \<open>FIRST and FOLLOW\<close>

text \<open>
  \<^verbatim>\<open>first\<close> and \<^verbatim>\<open>follow\<close> are plain recursive methods. The first argument of the model
  bounds the depth of the recursion: \<open>None\<close> means that the call needs a deeper recursion
  than the bound allows, so a call returns exactly when some bound gives \<open>Some\<close>. A raised
  exception is \<open>Some (Inl e)\<close>, a returned value \<open>Some (Inr v)\<close>.
\<close>

type_synonym 'a outcome = "(error + 'a) option"

text \<open>The loop \<^verbatim>\<open>for production in self.grammar[non_terminal]\<close> of \<^verbatim>\<open>first\<close>; \<open>rec\<close> is the
  recursive call \<^verbatim>\<open>self.first\<close> and \<open>ts\<close> the list \<^verbatim>\<open>self.terminals\<close>.\<close>

fun first_productions ::
  "(symbol \<Rightarrow> symbol set outcome) \<Rightarrow> symbol list \<Rightarrow> production list \<Rightarrow> symbol set \<Rightarrow>
   symbol set outcome"
where
  "first_productions rec ts [] first_set = Some (Inr first_set)"
| "first_productions rec ts (production # rest) first_set =
     (case production of
        [] \<Rightarrow> Some (Inl IndexError)
      | symbol # _ \<Rightarrow>
          if symbol \<in> set ts
          then first_productions rec ts rest (insert symbol first_set)
          else (case rec symbol of
                  None \<Rightarrow> None
                | Some (Inl e) \<Rightarrow> Some (Inl e)
                | Some (Inr s) \<Rightarrow> first_productions rec ts rest (first_set \<union> s)))"

primrec first :: "nat \<Rightarrow> parser \<Rightarrow> symbol \<Rightarrow> symbol set outcome" where
  "first 0 p non_terminal = None"
| "first (Suc n) p non_terminal =
     (case map_of (grammar p) non_terminal of
        None \<Rightarrow> Some (Inl KeyError)
      | Some productions \<Rightarrow> first_productions (first n p) (terminals p) productions {})"

text \<open>The loop \<^verbatim>\<open>for i, symbol in enumerate(production)\<close> of \<^verbatim>\<open>follow\<close>, on the part of the
  production from position \<^verbatim>\<open>i\<close> on: \<^verbatim>\<open>i + 1 < len(production)\<close> holds exactly when a symbol
  comes after the current one. \<open>rec_first\<close> and \<open>rec_follow\<close> are the calls \<^verbatim>\<open>self.first\<close>
  and \<^verbatim>\<open>self.follow\<close>.\<close>

fun follow_symbols ::
  "(symbol \<Rightarrow> symbol set outcome) \<Rightarrow> (symbol \<Rightarrow> symbol set outcome) \<Rightarrow> symbol list \<Rightarrow> symbol \<Rightarrow>
   symbol \<Rightarrow> production \<Rightarrow> symbol set \<Rightarrow> symbol set outcome"
where
  "follow_symbols rec_first rec_follow ts non_terminal lhs [] follow_set = Some (Inr follow_set)"
| "follow_symbols rec_first rec_follow ts non_terminal lhs (symbol # rest) follow_set =
     (if symbol = non_terminal then
        (case rest of
           next_symbol # _ \<Rightarrow>
             if next_symbol \<in> set ts
             then follow_symbols rec_first rec_follow ts non_terminal lhs rest
                    (insert next_symbol follow_set)
             else (case rec_first next_symbol of
                     None \<Rightarrow> None
                   | Some (Inl e) \<Rightarrow> Some (Inl e)
                   | Some (Inr s) \<Rightarrow>
                       follow_symbols rec_first rec_follow ts non_terminal lhs rest (follow_set \<union> s))
         | [] \<Rightarrow>
             (case rec_follow lhs of
                None \<Rightarrow> None
              | Some (Inl e) \<Rightarrow> Some (Inl e)
              | Some (Inr s) \<Rightarrow>
                  follow_symbols rec_first rec_follow ts non_terminal lhs rest (follow_set \<union> s)))
      else follow_symbols rec_first rec_follow ts non_terminal lhs rest follow_set)"

text \<open>\<^verbatim>\<open>for production in productions\<close>\<close>

fun follow_productions ::
  "(symbol \<Rightarrow> symbol set outcome) \<Rightarrow> (symbol \<Rightarrow> symbol set outcome) \<Rightarrow> symbol list \<Rightarrow> symbol \<Rightarrow>
   symbol \<Rightarrow> production list \<Rightarrow> symbol set \<Rightarrow> symbol set outcome"
where
  "follow_productions rec_first rec_follow ts non_terminal lhs [] follow_set = Some (Inr follow_set)"
| "follow_productions rec_first rec_follow ts non_terminal lhs (production # rest) follow_set =
     (case follow_symbols rec_first rec_follow ts non_terminal lhs production follow_set of
        None \<Rightarrow> None
      | Some (Inl e) \<Rightarrow> Some (Inl e)
      | Some (Inr s) \<Rightarrow> follow_productions rec_first rec_follow ts non_terminal lhs rest s)"

text \<open>\<^verbatim>\<open>for lhs, productions in self.grammar.items()\<close>\<close>

fun follow_grammar ::
  "(symbol \<Rightarrow> symbol set outcome) \<Rightarrow> (symbol \<Rightarrow> symbol set outcome) \<Rightarrow> symbol list \<Rightarrow> symbol \<Rightarrow>
   grammar_t \<Rightarrow> symbol set \<Rightarrow> symbol set outcome"
where
  "follow_grammar rec_first rec_follow ts non_terminal [] follow_set = Some (Inr follow_set)"
| "follow_grammar rec_first rec_follow ts non_terminal ((lhs, productions) # rest) follow_set =
     (case follow_productions rec_first rec_follow ts non_terminal lhs productions follow_set of
        None \<Rightarrow> None
      | Some (Inl e) \<Rightarrow> Some (Inl e)
      | Some (Inr s) \<Rightarrow> follow_grammar rec_first rec_follow ts non_terminal rest s)"

primrec follow :: "nat \<Rightarrow> parser \<Rightarrow> symbol \<Rightarrow> symbol set outcome" where
  "follow 0 p non_terminal = None"
| "follow (Suc n) p non_terminal =
     follow_grammar (first n p) (follow n p) (terminals p) non_terminal (grammar p)
       (if non_terminal = start_symbol p then {''$''} else {})"

section \<open>Automaton builder and table compiler\<close>

text \<open>
  One pass of \<^verbatim>\<open>for symbol in self.terminals + self.non_terminals\<close> inside the \<^verbatim>\<open>while
  states_queue\<close> loop of \<^verbatim>\<open>items\<close>. The loop state is the parser object together with the locals
  \<^verbatim>\<open>state_mapping\<close> (a dict keyed by frozen item sets) and \<^verbatim>\<open>states_queue\<close>.
\<close>

type_synonym bfs_state = "parser \<times> (item set \<rightharpoonup> nat) \<times> item set list"

definition bfs_symbol :: "item set \<Rightarrow> nat \<Rightarrow> symbol \<Rightarrow> bfs_state \<Rightarrow> bfs_state" where
  "bfs_symbol state state_index symbol st =
     (case st of (p, state_mapping, states_queue) \<Rightarrow>
        let next_state = goto p state symbol in
        if next_state \<noteq> {} then
          (case (case state_mapping next_state of
                   None \<Rightarrow>
                     (p\<lparr>state_count := state_count p + 1, states := states p @ [next_state]\<rparr>,
                      state_mapping(next_state \<mapsto> state_count p + 1),
                      states_queue @ [next_state],
                      state_count p + 1)
                 | Some j \<Rightarrow> (p, state_mapping, states_queue, j))
           of (p1, state_mapping1, states_queue1, next_state_index) \<Rightarrow>
             if symbol \<in> set (terminals p)
             then (p1\<lparr>action_table :=
                         table_set (action_table p1) (St state_index) symbol (Shift next_state_index)\<rparr>,
                   state_mapping1, states_queue1)
             else (p1\<lparr>goto_table :=
                         table_set (goto_table p1) (St state_index) symbol next_state_index\<rparr>,
                   state_mapping1, states_queue1))
        else st)"

text \<open>The \<^verbatim>\<open>while states_queue\<close> loop. \<open>None\<close> is a loop that never ends.\<close>

partial_function (option) bfs_loop ::
  "parser \<Rightarrow> (item set \<rightharpoonup> nat) \<Rightarrow> item set list \<Rightarrow> (error + parser) option"
where
  "bfs_loop p state_mapping states_queue =
     (case states_queue of
        [] \<Rightarrow> Some (Inr p)
      | state # queue \<Rightarrow>
          (case state_mapping state of
             None \<Rightarrow> Some (Inl KeyError)
           | Some state_index \<Rightarrow>
               (case fold (bfs_symbol state state_index) (terminals p @ non_terminals p)
                       (p, state_mapping, queue) of
                  (p', state_mapping', queue') \<Rightarrow> bfs_loop p' state_mapping' queue')))"

declare bfs_loop.simps [code]

text \<open>\<^verbatim>\<open>get_production_index\<close>: the index of the first alternative equal to \<^verbatim>\<open>rhs\<close>, or \<^verbatim>\<open>-1\<close>.\<close>

fun production_index_from :: "production list \<Rightarrow> production \<Rightarrow> int \<Rightarrow> int" where
  "production_index_from [] rhs index = - 1"
| "production_index_from (production # rest) rhs index =
     (if production = rhs then index else production_index_from rest rhs (index + 1))"

definition get_production_index :: "parser \<Rightarrow> symbol \<Rightarrow> production \<Rightarrow> error + int" where
  "get_production_index p lhs rhs =
     (case map_of (grammar p) lhs of
        None \<Rightarrow> Inl KeyError
      | Some productions \<Rightarrow> Inr (production_index_from productions rhs 0))"

text \<open>A loop whose body may raise or fail to return.\<close>

fun fold_outcome :: "('a \<Rightarrow> 's \<Rightarrow> 's outcome) \<Rightarrow> 'a list \<Rightarrow> 's \<Rightarrow> 's outcome" where
  "fold_outcome f [] s = Some (Inr s)"
| "fold_outcome f (x # xs) s =
     (case f x s of
        None \<Rightarrow> None
      | Some (Inl e) \<Rightarrow> Some (Inl e)
      | Some (Inr s') \<Rightarrow> fold_outcome f xs s')"

text \<open>The body of \<^verbatim>\<open>for lhs, rhs, dot_pos in state\<close> in the second loop of \<^verbatim>\<open>items\<close>.\<close>

definition reduce_item :: "nat \<Rightarrow> nat \<Rightarrow> item \<Rightarrow> parser \<Rightarrow> parser outcome" where
  "reduce_item n i it p =
     (case it of (lhs, rhs, dot_pos) \<Rightarrow>
        if dot_pos = length rhs then
          if lhs = start_symbol p
          then Some (Inr (p\<lparr>action_table := table_set (action_table p) (St i) ''$'' Accept\<rparr>))
          else (case get_production_index p lhs rhs of
                  Inl e \<Rightarrow> Some (Inl e)
                | Inr production_index \<Rightarrow>
                    (case follow n p lhs of
                       None \<Rightarrow> None
                     | Some (Inl e) \<Rightarrow> Some (Inl e)
                     | Some (Inr follow_set) \<Rightarrow>
                         Some (Inr (p\<lparr>action_table :=
                           table_set_all (action_table p) (St i) follow_set (Reduce lhs rhs)\<rparr>))))
        else Some (Inr p))"

text \<open>
  Python does not fix the order in which \<^verbatim>\<open>for ... in state\<close> visits the members of a set.
  The model takes that order as the parameter \<open>iter\<close>, which lists a set.
\<close>

definition reduce_state ::
  "(item set \<Rightarrow> item list) \<Rightarrow> nat \<Rightarrow> nat \<times> item set \<Rightarrow> parser \<Rightarrow> parser outcome" where
  "reduce_state iter n ist p =
     (case ist of (i, state) \<Rightarrow> fold_outcome (reduce_item n i) (iter state) p)"

definition reduce_phase :: "(item set \<Rightarrow> item list) \<Rightarrow> nat \<Rightarrow> parser \<Rightarrow> parser outcome" where
  "reduce_phase iter n p = fold_outcome (reduce_state iter n) (enumerate 0 (states p)) p"

definition items :: "(item set \<Rightarrow> item list) \<Rightarrow> nat \<Rightarrow> parser \<Rightarrow> parser outcome" where
  "items iter n p =
     (case map_of (grammar p) (start_symbol p) of
        None \<Rightarrow> Some (Inl KeyError)
      | Some productions \<Rightarrow>
          (case productions of
             [] \<Rightarrow> Some (Inl IndexError)
           | production # _ \<Rightarrow>
               let initial_item = (start_symbol p, production, 0);
                   initial_state = closure p {initial_item}
               in (case bfs_loop (p\<lparr>states := states p @ [initial_state]\<rparr>)
                          [initial_state \<mapsto> 0] [initial_state] of
                     None \<Rightarrow> None
                   | Some (Inl e) \<Rightarrow> Some (Inl e)
                   | Some (Inr p') \<Rightarrow> reduce_phase iter n p')))"

section \<open>Parse driver\<close>

text \<open>\<^verbatim>\<open>for _ in range(n): stack.pop()\<close>\<close>

fun pop_n :: "nat \<Rightarrow> stack_entry list \<Rightarrow> error + stack_entry list" where
  "pop_n 0 stack = Inr stack"
| "pop_n (Suc n) stack = (if stack = [] then Inl IndexError else pop_n n (butlast stack))"

text \<open>One pass of the \<^verbatim>\<open>while True\<close> loop of \<^verbatim>\<open>parse\<close>. The parser object is part of the
  result because reading a \<^verbatim>\<open>defaultdict\<close> may insert a row.\<close>

datatype step_result =
    Raise error parser
  | Return bool parser
  | Continue parser "stack_entry list" nat

definition parse_step :: "parser \<Rightarrow> symbol list \<Rightarrow> stack_entry list \<Rightarrow> nat \<Rightarrow> step_result" where
  "parse_step p input_string stack index =
     (if stack = [] then Raise IndexError p
      else let state = last stack in
      if \<not> index < length input_string then Raise IndexError p
      else let current_symbol = input_string ! index;
               p1 = p\<lparr>action_table := touch (action_table p) state\<rparr> in
      (case row (action_table p) state current_symbol of
         None \<Rightarrow> Raise (SyntaxError index current_symbol) p1
       | Some (Shift dest) \<Rightarrow> Continue p1 (stack @ [Sym current_symbol, St dest]) (index + 1)
       | Some (Reduce lhs rhs) \<Rightarrow>
           (case pop_n (2 * length rhs) stack of
              Inl e \<Rightarrow> Raise e p1
            | Inr stack1 \<Rightarrow>
                let stack2 = stack1 @ [Sym lhs] in
                if length stack2 < 2 then Raise IndexError p1
                else let exposed = stack2 ! (length stack2 - 2);
                         p2 = p1\<lparr>goto_table := touch (goto_table p1) exposed\<rparr> in
                (case row (goto_table p1) exposed lhs of
                   None \<Rightarrow> Raise KeyError p2
                 | Some goto_state \<Rightarrow> Continue p2 (stack2 @ [St goto_state]) index))
       | Some Accept \<Rightarrow> Return True p1))"

text \<open>The \<^verbatim>\<open>while True\<close> loop; \<open>None\<close> is a loop that never ends.\<close>

partial_function (option) parse_loop ::
  "parser \<Rightarrow> symbol list \<Rightarrow> stack_entry list \<Rightarrow> nat \<Rightarrow> ((error + bool) \<times> parser) option"
where
  "parse_loop p input_string stack index =
     (case parse_step p input_string stack index of
        Raise e p' \<Rightarrow> Some (Inl e, p')
      | Return b p' \<Rightarrow> Some (Inr b, p')
      | Continue p' stack' index' \<Rightarrow> parse_loop p' input_string stack' index')"

declare parse_loop.simps [code]

definition parse :: "parser \<Rightarrow> symbol list \<Rightarrow> ((error + bool) \<times> parser) option" where
  "parse p input_string = parse_loop p (input_string @ [''$'']) [St 0] 0"

section \<open>The grammar embedded in the script\<close>

text \<open>The start symbol of the example is the two-character string \<^verbatim>\<open>S'\<close>.\<close>

definition S_prime :: symbol where
  "S_prime = [CHR ''S'', CHR 0x27]"

definition example_grammar :: grammar_t where
  "example_grammar =
     [(S_prime, [[''S'']]),
      (''S'', [[''E'']]),
      (''E'', [[''E'', ''+'', ''T''], [''T'']]),
      (''T'', [[''T'', ''*'', ''F''], [''F'']]),
      (''F'', [[''('', ''E'', '')''], [''id'']])]"

definition example_parser :: parser where
  "example_parser =
     LRParser example_grammar [''+'', ''*'', ''('', '')'', ''id''] [''S'', ''E'', ''T'', ''F''] S_prime"

section \<open>Auxiliary notions used in the statements\<close>

text \<open>
  A table has grown when every outer key either keeps its row or is new with an empty
  row: what reading a \<^verbatim>\<open>defaultdict\<close> can do to it.
\<close>

definition table_grown :: "'v table \<Rightarrow> 'v table \<Rightarrow> bool" where
  "table_grown t t' = (\<forall>k. t' k = t k \<or> (t k = None \<and> t' k = Some Map.empty))"

definition parser_frame :: "parser \<Rightarrow> parser \<Rightarrow> bool" where
  "parser_frame p p' =
     (grammar p' = grammar p \<and> terminals p' = terminals p \<and> non_terminals p' = non_terminals p
      \<and> start_symbol p' = start_symbol p \<and> states p' = states p \<and> state_count p' = state_count p
      \<and> table_grown (action_table p) (action_table p')
      \<and> table_grown (goto_table p) (goto_table p'))"

text \<open>A parser object whose tables are written by hand: those of \<^verbatim>\<open>S' \<rightarrow> S, S \<rightarrow> a\<close>.\<close>

definition tiny_tables :: parser where
  "tiny_tables =
     (LRParser [(S_prime, [[''S'']]), (''S'', [[''a'']])] [''a''] [''S''] S_prime)
       \<lparr>action_table :=
          table_set (table_set (table_set Map.empty (St 0) ''a'' (Shift 1))
            (St 1) ''$'' (Reduce ''S'' [''a''])) (St 2) ''$'' Accept,
        goto_table := table_set Map.empty (St 0) ''S'' 2\<rparr>"

text \<open>Two small grammars: a left-recursive one without a base case, and one that spells
  the end marker in a production.\<close>

definition left_rec_parser :: parser where
  "left_rec_parser = LRParser [(S_prime, [[''S'']]), (''S'', [[''S'', ''a'']])] [''a''] [''S''] S_prime"

definition dollar_parser :: parser where
  "dollar_parser = LRParser [(S_prime, [[''S'']]), (''S'', [[''a'', ''$'']])] [''a''] [''S''] S_prime"

text \<open>
  Two parser objects have the same grammar when they agree on everything that \<^verbatim>\<open>closure\<close>,
  \<^verbatim>\<open>goto\<close>, \<^verbatim>\<open>first\<close> and \<^verbatim>\<open>follow\<close> read. \<open>bfs_inv\<close> is the invariant of the \<^verbatim>\<open>while
  states_queue\<close> loop used below: indices handed out by \<^verbatim>\<open>state_mapping\<close> point at the state
  they name, and every edge in a table comes from a non-empty \<^verbatim>\<open>goto\<close>.
\<close>

definition same_grammar :: "parser \<Rightarrow> parser \<Rightarrow> bool" where
  "same_grammar p p' =
     (grammar p' = grammar p \<and> terminals p' = terminals p \<and> non_terminals p' = non_terminals p
      \<and> start_symbol p' = start_symbol p)"

definition bfs_inv :: "parser \<Rightarrow> (item set \<rightharpoonup> nat) \<Rightarrow> bool" where
  "bfs_inv p m =
     (Suc (state_count p) = length (states p)
      \<and> (\<forall>S j. m S = Some j \<longrightarrow> j < length (states p) \<and> states p ! j = S)
      \<and> (\<forall>i symbol d. row (action_table p) (St i) symbol = Some (Shift d) \<longrightarrow>
             i < length (states p) \<and> goto p (states p ! i) symbol \<noteq> {})
      \<and> (\<forall>i symbol d. row (goto_table p) (St i) symbol = Some d \<longrightarrow>
             i < length (states p) \<and> goto p (states p ! i) symbol \<noteq> {}))"

definition edges_sound :: "parser \<Rightarrow> bool" where
  "edges_sound p =
     ((\<forall>i symbol d. row (action_table p) (St i) symbol = Some (Shift d) \<longrightarrow>
             i < length (states p) \<and> goto p (states p ! i) symbol \<noteq> {})
      \<and> (\<forall>i symbol d. row (goto_table p) (St i) symbol = Some d \<longrightarrow>
             i < length (states p) \<and> goto p (states p ! i) symbol \<noteq> {}))"

text \<open>\<open>only_shifts\<close>: every action in the table is a shift, as after the first loop
  of \<^verbatim>\<open>items\<close>.\<close>

definition only_shifts :: "parser \<Rightarrow> bool" where
  "only_shifts p = (\<forall>k t a. row (action_table p) k t = Some a \<longrightarrow> (\<exists>d. a = Shift d))"

text \<open>
  What the second loop of \<^verbatim>\<open>items\<close> does to one cell of the action table. An item writes
  the cell under \<open>t\<close> when it is complete and either its left-hand side is the start
  symbol and \<open>t\<close> is the end marker, or \<open>t\<close> is in the FOLLOW set of its left-hand side;
  it writes \<^verbatim>\<open>accept\<close> or its \<^verbatim>\<open>reduce\<close>. \<open>cell_after\<close> is the cell after the items of a
  list have been visited in order. \<open>reduce_frame\<close> lists what the loop leaves alone.
\<close>

definition item_writes :: "nat \<Rightarrow> parser \<Rightarrow> item \<Rightarrow> symbol \<Rightarrow> bool" where
  "item_writes n p it t =
     (case it of (lhs, rhs, dot_pos) \<Rightarrow>
        dot_pos = length rhs \<and>
        (if lhs = start_symbol p then t = ''$''
         else (case follow n p lhs of Some (Inr follow_set) \<Rightarrow> t \<in> follow_set | _ \<Rightarrow> False)))"

definition item_action :: "parser \<Rightarrow> item \<Rightarrow> action" where
  "item_action p it =
     (case it of (lhs, rhs, dot_pos) \<Rightarrow> if lhs = start_symbol p then Accept else Reduce lhs rhs)"

fun cell_after :: "nat \<Rightarrow> parser \<Rightarrow> item list \<Rightarrow> symbol \<Rightarrow> action option \<Rightarrow> action option" where
  "cell_after n p [] t c = c"
| "cell_after n p (it # its) t c =
     cell_after n p its t (if item_writes n p it t then Some (item_action p it) else c)"

definition reduce_frame :: "parser \<Rightarrow> parser \<Rightarrow> bool" where
  "reduce_frame p p' =
     (same_grammar p p' \<and> states p' = states p \<and> state_count p' = state_count p
      \<and> goto_table p' = goto_table p)"

text \<open>A grammar with a reduce/reduce conflict.\<close>

definition conflict_parser :: parser where
  "conflict_parser =
     LRParser [(S_prime, [[''S'']]), (''S'', [[''A''], [''B'']]), (''A'', [[''a'']]), (''B'', [[''a'']])]
       [''a''] [''S'', ''A'', ''B''] S_prime"

text \<open>The smallest grammar with a shift, a reduce and an accept.\<close>

definition tiny_parser :: parser where
  "tiny_parser = LRParser [(S_prime, [[''S'']]), (''S'', [[''a'']])] [''a''] [''S''] S_prime"

text \<open>
  \<open>parse_run k\<close> is the configuration of the driver loop of \<^verbatim>\<open>parse\<close> after \<open>k\<close> passes, or
  the result if the loop has ended before. \<open>rhs_known\<close> says that the right-hand sides of
  the items of a set are alternatives of the grammar, \<open>dollar_free\<close> that no alternative of
  a grammar contains the end marker, \<open>no_shift_on_end\<close> that no row of the action table
  holds a shift under the end marker.
\<close>

fun parse_run :: "nat \<Rightarrow> parser \<Rightarrow> symbol list \<Rightarrow> stack_entry list \<Rightarrow> nat \<Rightarrow> step_result" where
  "parse_run 0 p input_string stack index = Continue p stack index"
| "parse_run (Suc k) p input_string stack index =
     (case parse_step p input_string stack index of
        Continue p' stack' index' \<Rightarrow> parse_run k p' input_string stack' index'
      | result \<Rightarrow> result)"

definition rhs_known :: "parser \<Rightarrow> item set \<Rightarrow> bool" where
  "rhs_known p S = (\<forall>it\<in>S. \<exists>entry\<in>set (grammar p). fst (snd it) \<in> set (snd entry))"

definition dollar_free :: "grammar_t \<Rightarrow> bool" where
  "dollar_free g = (\<forall>entry\<in>set g. \<forall>production\<in>set (snd entry). ''$'' \<notin> set production)"

definition no_shift_on_end :: "parser \<Rightarrow> bool" where
  "no_shift_on_end p = (\<forall>k d. row (action_table p) k ''$'' \<noteq> Some (Shift d))"

text \<open>
  \<open>returns_within r T\<close>: the call with outcome \<open>r\<close> returns a subset of \<open>T\<close>. Then a
  right-recursive grammar, and the rank functions used for the embedded grammar.
\<close>

definition returns_within :: "symbol set outcome \<Rightarrow> symbol set \<Rightarrow> bool" where
  "returns_within r T = (\<exists>F. r = Some (Inr F) \<and> F \<subseteq> T)"

definition right_rec_parser :: parser where
  "right_rec_parser =
     LRParser [(S_prime, [[''S'']]), (''S'', [[''a'', ''S''], [''a'']])] [''a''] [''S''] S_prime"

definition example_rank :: "symbol \<Rightarrow> nat" where
  "example_rank X =
     (if X = ''F'' then 4 else if X = ''T'' then 3 else if X = ''E'' then 2
      else if X = ''S'' then 1 else 0)"

definition zero_rank :: "symbol \<Rightarrow> nat" where
  "zero_rank X = 0"

text \<open>
  An item is complete when its dot is at the end. A state with at most one complete item
  gets the same actions whatever the order of the visit; \<open>listed\<close> holds of the sets that
  are the members of a list.
\<close>

definition is_complete :: "item \<Rightarrow> bool" where
  "is_complete it = (case it of (lhs, rhs, dot_pos) \<Rightarrow> dot_pos = length rhs)"

definition one_complete_item :: "item set \<Rightarrow> bool" where
  "one_complete_item S = (\<forall>x\<in>S. \<forall>y\<in>S. is_complete x \<and> is_complete y \<longrightarrow> x = y)"

definition listed :: "item set \<Rightarrow> bool" where
  "listed S = (set (sorted_list_of_set S) = S)"

section \<open>Properties of closure and goto\<close>

lemma closure_loop_fixed: "new_items p (closure_loop p c) = {}"
proof (induction p c rule: closure_loop.induct)
  case (1 p closure_set)
  show ?case
  proof (cases "new_items p closure_set = {}")
    case True
    then show ?thesis by (simp add: closure_loop.simps)
  next
    case False
    with "1" show ?thesis by (subst closure_loop.simps) simp
  qed
qed

lemma closure_loop_stable: "new_items p c = {} \<Longrightarrow> closure_loop p c = c"
  by (simp add: closure_loop.simps)

lemma closure_loop_superset: "c \<subseteq> closure_loop p c"
proof (induction p c rule: closure_loop.induct)
  case (1 p closure_set)
  show ?case
  proof (cases "new_items p closure_set = {}")
    case True
    then show ?thesis by (simp add: closure_loop.simps)
  next
    case False
    with "1" show ?thesis by (subst closure_loop.simps) auto
  qed
qed

lemma closure_loop_subset: "closure_loop p c \<subseteq> c \<union> grammar_items p"
proof (induction p c rule: closure_loop.induct)
  case (1 p closure_set)
  show ?case
  proof (cases "new_items p closure_set = {}")
    case True
    then show ?thesis by (simp add: closure_loop.simps)
  next
    case False
    with "1" new_items_subset [of p closure_set] show ?thesis
      by (subst closure_loop.simps) auto
  qed
qed

lemma new_items_empty: "new_items p {} = {}"
  by (simp add: new_items_def)

lemma closure_empty: "closure p {} = {}"
  by (simp add: closure_def closure_loop_stable new_items_empty)

text \<open>
  Claim C5. \<^verbatim>\<open>closure\<close> is idempotent: for every item set \<open>X\<close>, the closure of the closure
  of \<open>X\<close> is the closure of \<open>X\<close>. The loop stops only when a pass finds no new item, and
  on such a set the next call stops after its first pass.
\<close>

theorem closure_idempotent: "closure p (closure p X) = closure p X"
  unfolding closure_def by (rule closure_loop_stable) (rule closure_loop_fixed)

text \<open>
  Claim C4. For every item set \<open>X\<close> and symbol, \<^verbatim>\<open>goto\<close> returns the empty set when no item
  of \<open>X\<close> has its dot immediately before the symbol, and the set that \<^verbatim>\<open>goto\<close> returns is
  always closure-complete.
\<close>

theorem goto_empty_and_closed:
  "((\<forall>it\<in>X. case it of (lhs, rhs, dot_pos) \<Rightarrow> \<not> (dot_pos < length rhs \<and> rhs ! dot_pos = symbol))
      \<longrightarrow> goto p X symbol = {})
   \<and> closure p (goto p X symbol) = goto p X symbol"
proof
  show "(\<forall>it\<in>X. case it of (lhs, rhs, dot_pos) \<Rightarrow> \<not> (dot_pos < length rhs \<and> rhs ! dot_pos = symbol))
      \<longrightarrow> goto p X symbol = {}"
  proof
    assume "\<forall>it\<in>X. case it of (lhs, rhs, dot_pos) \<Rightarrow> \<not> (dot_pos < length rhs \<and> rhs ! dot_pos = symbol)"
    then have "goto_set X symbol = {}"
      by (auto simp: goto_set_def)
    then show "goto p X symbol = {}"
      by (simp add: goto_def closure_empty)
  qed
  show "closure p (goto p X symbol) = goto p X symbol"
    unfolding goto_def closure_def by (rule closure_loop_stable) (rule closure_loop_fixed)
qed

theorem goto_empty_and_closed_witness:
  "goto example_parser {(''F'', [''id''], 0)} ''+'' = {}
   \<and> closure example_parser (goto example_parser {(''F'', [''id''], 0)} ''+'')
       = goto example_parser {(''F'', [''id''], 0)} ''+''"
  using goto_empty_and_closed [of "{(''F'', [''id''], 0)}" "''+''" example_parser]
  by (simp add: closure_empty)

section \<open>Properties of the parse driver\<close>

lemma pop_n_take:
  "pop_n n stack = (if n \<le> length stack then Inr (take (length stack - n) stack) else Inl IndexError)"
proof (induction n arbitrary: stack)
  case 0
  then show ?case by simp
next
  case (Suc n)
  show ?case
  proof (cases "stack = []")
    case True
    then show ?thesis by simp
  next
    case False
    then have len: "length (butlast stack) = length stack - 1" and pos: "0 < length stack"
      by simp_all
    have tk: "take (length stack - 1 - n) (butlast stack) = take (length stack - Suc n) stack"
      by (simp add: butlast_conv_take)
    from pos have le: "n \<le> length stack - 1 \<longleftrightarrow> Suc n \<le> length stack"
      by arith
    from False have "pop_n (Suc n) stack = pop_n n (butlast stack)"
      by simp
    also have "\<dots> = (if n \<le> length stack - 1
        then Inr (take (length stack - 1 - n) (butlast stack)) else Inl IndexError)"
      using Suc [of "butlast stack"] len by simp
    also have "\<dots> = (if Suc n \<le> length stack
        then Inr (take (length stack - Suc n) stack) else Inl IndexError)"
      using tk le by simp
    finally show ?thesis .
  qed
qed

lemma table_grown_refl: "table_grown t t"
  by (simp add: table_grown_def)

lemma table_grown_trans: "table_grown t t' \<Longrightarrow> table_grown t' t'' \<Longrightarrow> table_grown t t''"
  unfolding table_grown_def by metis

lemma table_grown_touch: "table_grown t (touch t k)"
  by (auto simp: table_grown_def touch_def split: option.splits)

lemma table_grown_row: "table_grown t t' \<Longrightarrow> row t' k = row t k"
  unfolding table_grown_def row_def by (metis option.simps(4,5))

lemma parser_frame_refl: "parser_frame p p"
  by (simp add: parser_frame_def table_grown_refl)

lemma parser_frame_trans: "parser_frame p p' \<Longrightarrow> parser_frame p' p'' \<Longrightarrow> parser_frame p p''"
  unfolding parser_frame_def using table_grown_trans by metis

lemma parse_step_frame:
  "parse_step p inp stack index = Raise e p' \<Longrightarrow> parser_frame p p'"
  "parse_step p inp stack index = Return b p' \<Longrightarrow> parser_frame p p'"
  "parse_step p inp stack index = Continue p' stack' index' \<Longrightarrow> parser_frame p p'"
  by (auto simp: parse_step_def Let_def parser_frame_def table_grown_refl table_grown_touch
      split: option.splits action.splits sum.splits if_splits)

lemma parse_loop_frame:
  "parse_loop p inp stack index = Some y \<Longrightarrow> parser_frame p (snd y)"
proof (induction rule: parse_loop.raw_induct [rotated 1, consumes 1, case_names step])
  case (step parse_loop p input_string stack index y)
  show ?case
  proof (cases "parse_step p input_string stack index")
    case (Raise e p')
    with step(2) parse_step_frame(1) [OF Raise] show ?thesis by auto
  next
    case (Return b p')
    with step(2) parse_step_frame(2) [OF Return] show ?thesis by auto
  next
    case (Continue p' stack' index')
    with step(2) have "parse_loop p' input_string stack' index' = Some y" by simp
    then have "parser_frame p' (snd y)" by (rule step(1))
    with parse_step_frame(3) [OF Continue] show ?thesis by (rule parser_frame_trans)
  qed
qed


lemma parse_loop_raise: "parse_step p inp stack index = Raise e p' \<Longrightarrow> parse_loop p inp stack index = Some (Inl e, p')"
  by (subst parse_loop.simps) simp

lemma parse_loop_return: "parse_step p inp stack index = Return b p' \<Longrightarrow> parse_loop p inp stack index = Some (Inr b, p')"
  by (subst parse_loop.simps) simp

lemma parse_loop_continue:
  "parse_step p inp stack index = Continue p' stack' index' \<Longrightarrow>
   parse_loop p inp stack index = parse_loop p' inp stack' index'"
  by (subst parse_loop.simps) simp

lemma parse_step_shift:
  assumes "stack \<noteq> []" "index < length inp"
    and "row (action_table p) (last stack) (inp ! index) = Some (Shift dest)"
  shows "parse_step p inp stack index =
     Continue (p\<lparr>action_table := touch (action_table p) (last stack)\<rparr>)
       (stack @ [Sym (inp ! index), St dest]) (index + 1)"
  using assms by (simp add: parse_step_def Let_def)

lemma parse_step_accept:
  assumes "stack \<noteq> []" "index < length inp"
    and "row (action_table p) (last stack) (inp ! index) = Some Accept"
  shows "parse_step p inp stack index =
     Return True (p\<lparr>action_table := touch (action_table p) (last stack)\<rparr>)"
  using assms by (simp add: parse_step_def Let_def)

lemma parse_step_reduce:
  assumes "stack \<noteq> []" "index < length inp"
    and "row (action_table p) (last stack) (inp ! index) = Some (Reduce lhs rhs)"
  shows "parse_step p inp stack index =
     (let p1 = p\<lparr>action_table := touch (action_table p) (last stack)\<rparr> in
      if length stack \<le> 2 * length rhs then Raise IndexError p1
      else let stack1 = take (length stack - 2 * length rhs) stack;
               p2 = p1\<lparr>goto_table := touch (goto_table p) (last stack1)\<rparr> in
           (case row (goto_table p) (last stack1) lhs of
              None \<Rightarrow> Raise KeyError p2
            | Some goto_state \<Rightarrow> Continue p2 (stack1 @ [Sym lhs, St goto_state]) index))"
proof (cases "2 * length rhs \<le> length stack")
  case False
  with assms show ?thesis
    by (simp add: parse_step_def Let_def pop_n_take)
next
  case True
  show ?thesis
  proof (cases "2 * length rhs = length stack")
    case True
    with assms show ?thesis
      by (simp add: parse_step_def Let_def pop_n_take)
  next
    case False
    with True have lt: "2 * length rhs < length stack" by simp
    define stack1 where "stack1 = take (length stack - 2 * length rhs) stack"
    from lt have ne: "stack1 \<noteq> []" by (auto simp: stack1_def)
    then have ex: "(stack1 @ [Sym lhs]) ! (length (stack1 @ [Sym lhs]) - 2) = last stack1"
      by (simp add: nth_append last_conv_nth)
    from ne have len: "\<not> length (stack1 @ [Sym lhs]) < 2"
      by (cases stack1) simp_all
    from assms lt have "pop_n (2 * length rhs) stack = Inr stack1"
      by (simp add: pop_n_take stack1_def)
    with assms lt ex len show ?thesis
      unfolding parse_step_def Let_def stack1_def [symmetric]
      by (simp add: stack1_def [symmetric] split: option.splits)
  qed
qed


lemma last_take: "0 < n \<Longrightarrow> n \<le> length xs \<Longrightarrow> last (take n xs) = xs ! (n - 1)"
proof -
  assume n: "0 < n" "n \<le> length xs"
  then have "take n xs \<noteq> []" by auto
  then have "last (take n xs) = take n xs ! (length (take n xs) - 1)"
    by (rule last_conv_nth)
  also from n have "\<dots> = xs ! (n - 1)" by (simp add: min_def)
  finally show ?thesis .
qed

text \<open>
  Claim C8. In the driver loop, a shift pushes the current input symbol and then the
  destination state and advances the cursor by one; a reduce pops exactly twice the
  length of the right-hand side, pushes the left-hand side and then the goto-table entry
  for the newly exposed top state and the left-hand side, and leaves the cursor where it
  is; an accept ends the parse with \<^verbatim>\<open>True\<close>. (The reduce case is stated for a stack
  that holds the entries to pop above its bottom and a goto table that has the entry.)
\<close>

theorem parse_driver_actions:
  assumes "stack \<noteq> []" and "index < length input_string"
  shows
    "(row (action_table p) (last stack) (input_string ! index) = Some (Shift dest) \<longrightarrow>
        parse_step p input_string stack index =
          Continue (p\<lparr>action_table := touch (action_table p) (last stack)\<rparr>)
            (stack @ [Sym (input_string ! index), St dest]) (index + 1))
     \<and> (row (action_table p) (last stack) (input_string ! index) = Some (Reduce lhs rhs)
          \<and> 2 * length rhs < length stack
          \<and> row (goto_table p) (stack ! (length stack - 2 * length rhs - 1)) lhs = Some goto_state \<longrightarrow>
        parse_step p input_string stack index =
          Continue (p\<lparr>action_table := touch (action_table p) (last stack),
                      goto_table := touch (goto_table p) (stack ! (length stack - 2 * length rhs - 1))\<rparr>)
            (take (length stack - 2 * length rhs) stack @ [Sym lhs, St goto_state]) index)
     \<and> (row (action_table p) (last stack) (input_string ! index) = Some Accept \<longrightarrow>
        parse_loop p input_string stack index =
          Some (Inr True, p\<lparr>action_table := touch (action_table p) (last stack)\<rparr>))"
proof (intro conjI impI)
  assume "row (action_table p) (last stack) (input_string ! index) = Some (Shift dest)"
  with assms show "parse_step p input_string stack index =
          Continue (p\<lparr>action_table := touch (action_table p) (last stack)\<rparr>)
            (stack @ [Sym (input_string ! index), St dest]) (index + 1)"
    by (rule parse_step_shift)
next
  assume "row (action_table p) (last stack) (input_string ! index) = Some Accept"
  with assms have "parse_step p input_string stack index =
      Return True (p\<lparr>action_table := touch (action_table p) (last stack)\<rparr>)"
    by (rule parse_step_accept)
  then show "parse_loop p input_string stack index =
          Some (Inr True, p\<lparr>action_table := touch (action_table p) (last stack)\<rparr>)"
    by (rule parse_loop_return)
next
  assume a: "row (action_table p) (last stack) (input_string ! index) = Some (Reduce lhs rhs)
          \<and> 2 * length rhs < length stack
          \<and> row (goto_table p) (stack ! (length stack - 2 * length rhs - 1)) lhs = Some goto_state"
  then have lt: "2 * length rhs < length stack" by simp
  then have "last (take (length stack - 2 * length rhs) stack)
      = stack ! (length stack - 2 * length rhs - 1)"
    by (intro last_take) simp_all
  with a assms parse_step_reduce [of stack index input_string p lhs rhs]
  show "parse_step p input_string stack index =
          Continue (p\<lparr>action_table := touch (action_table p) (last stack),
                      goto_table := touch (goto_table p) (stack ! (length stack - 2 * length rhs - 1))\<rparr>)
            (take (length stack - 2 * length rhs) stack @ [Sym lhs, St goto_state]) index"
    by (simp add: Let_def)
qed

lemma tiny_rows:
  "row (action_table tiny_tables) (St 0) ''a'' = Some (Shift 1)"
  "row (action_table tiny_tables) (St 1) ''$'' = Some (Reduce ''S'' [''a''])"
  "row (action_table tiny_tables) (St 2) ''$'' = Some Accept"
  "row (goto_table tiny_tables) (St 0) ''S'' = Some 2"
  by (simp_all add: tiny_tables_def table_set_def row_def)

theorem parse_driver_actions_witness:
  "parse_step tiny_tables [''a'', ''$''] [St 0] 0 =
     Continue (tiny_tables\<lparr>action_table := touch (action_table tiny_tables) (St 0)\<rparr>)
       [St 0, Sym ''a'', St 1] 1
   \<and> parse_step tiny_tables [''a'', ''$''] [St 0, Sym ''a'', St 1] 1 =
     Continue (tiny_tables\<lparr>action_table := touch (action_table tiny_tables) (St 1),
                 goto_table := touch (goto_table tiny_tables) (St 0)\<rparr>)
       [St 0, Sym ''S'', St 2] 1
   \<and> parse_loop tiny_tables [''a'', ''$''] [St 0, Sym ''S'', St 2] 1 =
     Some (Inr True, tiny_tables\<lparr>action_table := touch (action_table tiny_tables) (St 2)\<rparr>)"
  using parse_driver_actions [of "[St 0]" 0 "[''a'', ''$'']" tiny_tables 1]
    parse_driver_actions [of "[St 0, Sym ''a'', St 1]" 1 "[''a'', ''$'']" tiny_tables _ "''S''" "[''a'']" 2]
    parse_driver_actions [of "[St 0, Sym ''S'', St 2]" 1 "[''a'', ''$'']" tiny_tables]
  by (simp add: tiny_rows del: One_nat_def)

lemma parse_step_index_mono:
  "parse_step p inp stack index = Continue p' stack' index' \<Longrightarrow> index \<le> index'"
  by (auto simp: parse_step_def Let_def split: option.splits action.splits sum.splits if_splits)

lemma parse_step_syntax_error_iff:
  "(\<exists>p'. parse_step p inp stack index = Raise (SyntaxError i s) p') \<longleftrightarrow>
     (stack \<noteq> [] \<and> index < length inp \<and> i = index \<and> s = inp ! index
      \<and> row (action_table p) (last stack) (inp ! index) = None)"
  by (auto simp: parse_step_def Let_def pop_n_take
      split: option.splits action.splits sum.splits if_splits)

lemma parse_step_index_error_iff:
  "(\<exists>p'. parse_step p inp stack index = Raise IndexError p') \<longleftrightarrow>
     (stack = [] \<or> \<not> index < length inp
      \<or> (\<exists>lhs rhs. row (action_table p) (last stack) (inp ! index) = Some (Reduce lhs rhs)
            \<and> length stack \<le> 2 * length rhs))"
proof (cases "stack \<noteq> [] \<and> index < length inp")
  case False
  then show ?thesis by (auto simp: parse_step_def Let_def)
next
  case True
  show ?thesis
  proof (cases "row (action_table p) (last stack) (inp ! index)")
    case None
    with True show ?thesis by (simp add: parse_step_def Let_def)
  next
    case (Some a)
    show ?thesis
    proof (cases a)
      case (Shift d)
      with True Some show ?thesis by (simp add: parse_step_shift)
    next
      case Accept
      with True Some show ?thesis by (simp add: parse_step_accept)
    next
      case (Reduce lhs rhs)
      with True Some show ?thesis
        by (auto simp: parse_step_reduce Let_def split: option.splits)
    qed
  qed
qed

lemma parse_step_key_error_iff:
  "(\<exists>p'. parse_step p inp stack index = Raise KeyError p') \<longleftrightarrow>
     (stack \<noteq> [] \<and> index < length inp
      \<and> (\<exists>lhs rhs. row (action_table p) (last stack) (inp ! index) = Some (Reduce lhs rhs)
            \<and> 2 * length rhs < length stack
            \<and> row (goto_table p) (stack ! (length stack - 2 * length rhs - 1)) lhs = None))"
proof (cases "stack \<noteq> [] \<and> index < length inp")
  case False
  then show ?thesis by (auto simp: parse_step_def Let_def)
next
  case True
  show ?thesis
  proof (cases "row (action_table p) (last stack) (inp ! index)")
    case None
    with True show ?thesis by (simp add: parse_step_def Let_def)
  next
    case (Some a)
    show ?thesis
    proof (cases a)
      case (Shift d)
      with True Some show ?thesis by (simp add: parse_step_shift)
    next
      case Accept
      with True Some show ?thesis by (simp add: parse_step_accept)
    next
      case (Reduce lhs rhs)
      have "2 * length rhs < length stack \<Longrightarrow>
         last (take (length stack - 2 * length rhs) stack) = stack ! (length stack - 2 * length rhs - 1)"
        by (intro last_take) simp_all
      with True Some Reduce show ?thesis
        by (auto simp: parse_step_reduce Let_def split: option.splits)
    qed
  qed
qed

lemma parse_loop_syntax_error_position:
  "parse_loop p inp stack index = Some y \<Longrightarrow> y = (Inl (SyntaxError i s), p') \<Longrightarrow>
   index \<le> i \<and> i < length inp \<and> s = inp ! i"
proof (induction rule: parse_loop.raw_induct [rotated 1, consumes 1, case_names step])
  case (step parse_loop p input_string stack index y)
  show ?case
  proof (cases "parse_step p input_string stack index")
    case (Raise e q)
    with step(2,3) have "parse_step p input_string stack index = Raise (SyntaxError i s) q"
      by simp
    then have "\<exists>q. parse_step p input_string stack index = Raise (SyntaxError i s) q" ..
    then show ?thesis by (simp add: parse_step_syntax_error_iff)
  next
    case (Return b q)
    with step(2,3) show ?thesis by simp
  next
    case (Continue q stack' index')
    with step(2) have "parse_loop q input_string stack' index' = Some y" by simp
    from step(1) [OF this step(3)] parse_step_index_mono [OF Continue]
    show ?thesis by simp
  qed
qed

text \<open>
  Claim C3, as amended. One pass of the driver loop raises \<^verbatim>\<open>SyntaxError\<close> exactly when the
  action table has no entry for the state on top of the stack and the current input
  symbol; the error carries the cursor position and that symbol; whatever a pass raises
  ends the parse at once, with no recovery. The failed lookup is the only source of a
  \<^verbatim>\<open>SyntaxError\<close>, but not the only error of a parse call: \<^verbatim>\<open>IndexError\<close> is raised exactly
  when the stack is empty, the cursor is past the end of the input, or a reduce has to pop
  or uncover more entries than the stack holds, and \<^verbatim>\<open>KeyError\<close> exactly when a reduce finds
  no goto entry for the uncovered state and the left-hand side.
\<close>

theorem syntax_error_condition:
  "((\<exists>p'. parse_step p inp stack index = Raise (SyntaxError i s) p') \<longleftrightarrow>
      (stack \<noteq> [] \<and> index < length inp \<and> i = index \<and> s = inp ! index
       \<and> row (action_table p) (last stack) (inp ! index) = None))
   \<and> (parse_step p inp stack index = Raise e p' \<longrightarrow>
        parse_loop p inp stack index = Some (Inl e, p'))
   \<and> (parse_loop p inp stack index = Some (Inl (SyntaxError i s), p') \<longrightarrow>
        index \<le> i \<and> i < length inp \<and> s = inp ! i)
   \<and> ((\<exists>p'. parse_step p inp stack index = Raise IndexError p') \<longleftrightarrow>
        (stack = [] \<or> \<not> index < length inp
         \<or> (\<exists>lhs rhs. row (action_table p) (last stack) (inp ! index) = Some (Reduce lhs rhs)
               \<and> length stack \<le> 2 * length rhs)))
   \<and> ((\<exists>p'. parse_step p inp stack index = Raise KeyError p') \<longleftrightarrow>
        (stack \<noteq> [] \<and> index < length inp
         \<and> (\<exists>lhs rhs. row (action_table p) (last stack) (inp ! index) = Some (Reduce lhs rhs)
               \<and> 2 * length rhs < length stack
               \<and> row (goto_table p) (stack ! (length stack - 2 * length rhs - 1)) lhs = None)))"
  using parse_step_syntax_error_iff [of p inp stack index i s]
    parse_loop_raise [of p inp stack index e p']
    parse_loop_syntax_error_position [of p inp stack index _ i s p']
    parse_step_index_error_iff [of p inp stack index]
    parse_step_key_error_iff [of p inp stack index]
  by blast

lemma tiny_row_missing: "row (action_table tiny_tables) (St 0) ''$'' = None"
  by (simp add: tiny_tables_def table_set_def row_def)

theorem syntax_error_condition_witness:
  "(\<exists>p'. parse_step tiny_tables [''$''] [St 0] 0 = Raise (SyntaxError 0 ''$'') p')
   \<and> parse_loop tiny_tables [''$''] [St 0] 0 =
       Some (Inl (SyntaxError 0 ''$''),
             tiny_tables\<lparr>action_table := touch (action_table tiny_tables) (St 0)\<rparr>)"
proof -
  have step: "parse_step tiny_tables [''$''] [St 0] 0 =
      Raise (SyntaxError 0 ''$'') (tiny_tables\<lparr>action_table := touch (action_table tiny_tables) (St 0)\<rparr>)"
    by (simp add: parse_step_def Let_def tiny_row_missing)
  from syntax_error_condition [of tiny_tables "[''$'']" "[St 0]" 0 0 "''$''" "SyntaxError 0 ''$''"
      "tiny_tables\<lparr>action_table := touch (action_table tiny_tables) (St 0)\<rparr>"] step
  show ?thesis by (simp add: tiny_row_missing)
qed

text \<open>
  The claim as written fails: for the grammar \<^verbatim>\<open>S' \<rightarrow> S, S \<rightarrow> a $\<close> the built table shifts on
  the end marker, and \<^verbatim>\<open>parse(['a'])\<close> raises \<^verbatim>\<open>IndexError\<close> although every lookup succeeded.
\<close>

lemma dollar_parse_eval:
  "(case items sorted_list_of_set 3 dollar_parser of
      Some (Inr p) \<Rightarrow> (case parse p [''a''] of Some (r, p') \<Rightarrow> r = Inl IndexError | None \<Rightarrow> False)
    | _ \<Rightarrow> False)"
  by code_simp

theorem index_error_counterexample:
  "\<exists>p p'. items sorted_list_of_set 3 dollar_parser = Some (Inr p)
     \<and> parse p [''a''] = Some (Inl IndexError, p')"
  using dollar_parse_eval by (auto split: option.splits sum.splits)

text \<open>
  Claim C7, as amended. A call to \<^verbatim>\<open>parse\<close> that returns or raises leaves the grammar, the
  symbol lists, the states list and every row that the action and goto tables hold
  unchanged. The key sets may grow: reading the row of a key that a table lacks inserts
  an empty row for it, and nothing else is ever added.
\<close>

theorem parse_frame: "parse p input_string = Some (r, p') \<Longrightarrow> parser_frame p p'"
  using parse_loop_frame [of p "input_string @ [''$'']" "[St 0]" 0 "(r, p')"]
  by (simp add: parse_def)

lemma tiny_parse_eval: "map_option fst (parse tiny_tables [''a'']) = Some (Inr True)"
  by code_simp

theorem parse_frame_witness:
  "\<exists>p'. parse tiny_tables [''a''] = Some (Inr True, p') \<and> parser_frame tiny_tables p'"
proof -
  from tiny_parse_eval obtain p' where e: "parse tiny_tables [''a''] = Some (Inr True, p')"
    by (cases "parse tiny_tables [''a'']") auto
  from parse_frame [OF e] e show ?thesis by blast
qed

text \<open>
  The claim as written fails on the key sets: for \<^verbatim>\<open>S' \<rightarrow> S, S \<rightarrow> S a\<close> the built action table
  has no row for state 0, and \<^verbatim>\<open>parse(['a'])\<close> leaves one behind.
\<close>

lemma left_rec_parse_eval:
  "(case items sorted_list_of_set 3 left_rec_parser of
      Some (Inr p) \<Rightarrow>
        (case parse p [''a''] of
           Some (r, p') \<Rightarrow> action_table p (St 0) = None \<and> action_table p' (St 0) \<noteq> None
         | None \<Rightarrow> False)
    | _ \<Rightarrow> False)"
  by code_simp

theorem parse_adds_row_counterexample:
  "\<exists>p r p'. items sorted_list_of_set 3 left_rec_parser = Some (Inr p)
     \<and> parse p [''a''] = Some (r, p')
     \<and> dom (action_table p') \<noteq> dom (action_table p)"
proof -
  from left_rec_parse_eval obtain p r p' where
    built: "items sorted_list_of_set 3 left_rec_parser = Some (Inr p)"
    and parsed: "parse p [''a''] = Some (r, p')"
    and before: "action_table p (St 0) = None" and after: "action_table p' (St 0) \<noteq> None"
    by (auto split: option.splits sum.splits)
  from before after have "St 0 \<notin> dom (action_table p)" "St 0 \<in> dom (action_table p')"
    by (auto simp: dom_def)
  then have "dom (action_table p') \<noteq> dom (action_table p)"
    by blast
  with built parsed show ?thesis
    by blast
qed

section \<open>Properties of the automaton builder\<close>

lemma same_grammar_refl: "same_grammar p p"
  by (simp add: same_grammar_def)

lemma same_grammar_trans: "same_grammar p p' \<Longrightarrow> same_grammar p' p'' \<Longrightarrow> same_grammar p p''"
  by (simp add: same_grammar_def)

lemma grammar_get_cong: "same_grammar p p' \<Longrightarrow> grammar_get p' symbol = grammar_get p symbol"
  unfolding grammar_get_def same_grammar_def by simp

lemma item_new_items_cong: "same_grammar p p' \<Longrightarrow> item_new_items p' it = item_new_items p it"
  unfolding item_new_items_def using grammar_get_cong [of p p']
  by (simp add: same_grammar_def split: prod.splits)

lemma new_items_cong: "same_grammar p p' \<Longrightarrow> new_items p' c = new_items p c"
  by (simp add: new_items_def item_new_items_cong)

lemma closure_loop_cong: "same_grammar p p' \<Longrightarrow> closure_loop p' c = closure_loop p c"
proof (induction p c rule: closure_loop.induct)
  case (1 p closure_set)
  note sg = "1.prems"
  show ?case
  proof (cases "new_items p closure_set = {}")
    case True
    with sg show ?thesis
      by (simp add: closure_loop_stable new_items_cong)
  next
    case False
    have "closure_loop p' closure_set = closure_loop p' (closure_set \<union> new_items p closure_set)"
      using False sg by (subst closure_loop.simps) (simp add: new_items_cong)
    also have "\<dots> = closure_loop p (closure_set \<union> new_items p closure_set)"
      using False sg by (rule "1.IH")
    also have "\<dots> = closure_loop p closure_set"
      using False by (subst (2) closure_loop.simps) simp
    finally show ?thesis .
  qed
qed

lemma goto_cong: "same_grammar p p' \<Longrightarrow> goto p' S symbol = goto p S symbol"
  by (simp add: goto_def closure_def closure_loop_cong)

lemma row_table_set:
  "row (table_set t k symbol v) k' symbol' =
     (if k' = k \<and> symbol' = symbol then Some v else row t k' symbol')"
  by (simp add: table_set_def row_def)

lemma bfs_symbol_same_grammar: "same_grammar (fst st) (fst (bfs_symbol state i symbol st))"
  by (cases st) (simp add: bfs_symbol_def Let_def same_grammar_def split: option.splits)

lemma bfs_fold_same_grammar: "same_grammar (fst st) (fst (fold (bfs_symbol state i) symbols st))"
proof (induction symbols arbitrary: st)
  case Nil
  show ?case by (simp add: same_grammar_refl)
next
  case (Cons symbol symbols)
  have "same_grammar (fst st) (fst (bfs_symbol state i symbol st))"
    by (rule bfs_symbol_same_grammar)
  moreover have "same_grammar (fst (bfs_symbol state i symbol st))
      (fst (fold (bfs_symbol state i) symbols (bfs_symbol state i symbol st)))"
    by (rule Cons.IH)
  ultimately show ?case by (simp add: same_grammar_trans)
qed

lemma bfs_symbol_inv:
  assumes inv: "bfs_inv p m" and idx: "m state = Some i"
    and res: "bfs_symbol state i symbol (p, m, q) = (p', m', q')"
  shows "bfs_inv p' m' \<and> m' state = Some i"
proof (cases "goto p state symbol = {}")
  case True
  with res inv idx show ?thesis
    by (simp add: bfs_symbol_def)
next
  case False
  define next_state where "next_state = goto p state symbol"
  from inv have cnt: "Suc (state_count p) = length (states p)"
    and map: "\<And>S j. m S = Some j \<Longrightarrow> j < length (states p) \<and> states p ! j = S"
    and act: "\<And>k s d. row (action_table p) (St k) s = Some (Shift d) \<Longrightarrow>
                k < length (states p) \<and> goto p (states p ! k) s \<noteq> {}"
    and gt: "\<And>k s d. row (goto_table p) (St k) s = Some d \<Longrightarrow>
                k < length (states p) \<and> goto p (states p ! k) s \<noteq> {}"
    unfolding bfs_inv_def by blast+
  from map [OF idx] have i_lt: "i < length (states p)" and i_st: "states p ! i = state"
    by simp_all
  show ?thesis
  proof (cases "m next_state")
    case (Some j)
    show ?thesis
    proof (cases "symbol \<in> set (terminals p)")
      case True
      with res False Some have p': "p' = p\<lparr>action_table :=
          table_set (action_table p) (St i) symbol (Shift j)\<rparr>" and m': "m' = m"
        by (simp_all add: bfs_symbol_def Let_def next_state_def)
      have sg: "same_grammar p p'" by (simp add: p' same_grammar_def)
      have "bfs_inv p' m'"
        unfolding bfs_inv_def
      proof (intro conjI allI impI)
        show "Suc (state_count p') = length (states p')" using cnt by (simp add: p')
      next
        fix S j' assume "m' S = Some j'"
        with map [of S j'] show "j' < length (states p')" "states p' ! j' = S"
          by (simp_all add: p' m')
      next
        fix k s d assume a: "row (action_table p') (St k) s = Some (Shift d)"
        have "k < length (states p) \<and> goto p (states p ! k) s \<noteq> {}"
        proof (cases "k = i \<and> s = symbol")
          case True
          with i_lt i_st False show ?thesis by simp
        next
          case False
          with a have "row (action_table p) (St k) s = Some (Shift d)"
            by (auto simp: p' row_table_set split: if_splits)
          then show ?thesis by (rule act)
        qed
        then show "k < length (states p')" "goto p' (states p' ! k) s \<noteq> {}"
          by (simp_all add: goto_cong [OF sg]) (simp_all add: p')
      next
        fix k s d assume "row (goto_table p') (St k) s = Some d"
        then have "row (goto_table p) (St k) s = Some d" by (simp add: p')
        from gt [OF this]
        show "k < length (states p')" "goto p' (states p' ! k) s \<noteq> {}"
          by (simp_all add: goto_cong [OF sg]) (simp_all add: p')
      qed
      with idx m' show ?thesis by simp
    next
      case nt: False
      with res False Some have p': "p' = p\<lparr>goto_table :=
          table_set (goto_table p) (St i) symbol j\<rparr>" and m': "m' = m"
        by (simp_all add: bfs_symbol_def Let_def next_state_def)
      have sg: "same_grammar p p'" by (simp add: p' same_grammar_def)
      have "bfs_inv p' m'"
        unfolding bfs_inv_def
      proof (intro conjI allI impI)
        show "Suc (state_count p') = length (states p')" using cnt by (simp add: p')
      next
        fix S j' assume "m' S = Some j'"
        with map [of S j'] show "j' < length (states p')" "states p' ! j' = S"
          by (simp_all add: p' m')
      next
        fix k s d assume a: "row (goto_table p') (St k) s = Some d"
        have "k < length (states p) \<and> goto p (states p ! k) s \<noteq> {}"
        proof (cases "k = i \<and> s = symbol")
          case True
          with i_lt i_st False show ?thesis by simp
        next
          case False
          with a have "row (goto_table p) (St k) s = Some d"
            by (auto simp: p' row_table_set split: if_splits)
          then show ?thesis by (rule gt)
        qed
        then show "k < length (states p')" "goto p' (states p' ! k) s \<noteq> {}"
          by (simp_all add: goto_cong [OF sg]) (simp_all add: p')
      next
        fix k s d assume "row (action_table p') (St k) s = Some (Shift d)"
        then have "row (action_table p) (St k) s = Some (Shift d)" by (simp add: p')
        from act [OF this]
        show "k < length (states p')" "goto p' (states p' ! k) s \<noteq> {}"
          by (simp_all add: goto_cong [OF sg]) (simp_all add: p')
      qed
      with idx m' show ?thesis by simp
    qed
  next
    case None
    define p1 where "p1 = p\<lparr>state_count := state_count p + 1, states := states p @ [next_state]\<rparr>"
    define j where "j = state_count p + 1"
    have j_len: "j = length (states p)" using cnt by (simp add: j_def)
    have sg1: "same_grammar p p1" by (simp add: p1_def same_grammar_def)
    from None idx have ne: "next_state \<noteq> state" by auto
    have st1: "\<And>k. k < length (states p) \<Longrightarrow> states p1 ! k = states p ! k"
      by (simp add: p1_def nth_append)
    have len1: "length (states p1) = Suc (length (states p))" by (simp add: p1_def)
    from res False None have m': "m' = m(next_state \<mapsto> j)"
      by (simp add: bfs_symbol_def Let_def next_state_def j_def split: if_splits)
    have map': "\<And>S j'. m' S = Some j' \<Longrightarrow> j' < length (states p1) \<and> states p1 ! j' = S"
    proof -
      fix S j' assume a: "m' S = Some j'"
      show "j' < length (states p1) \<and> states p1 ! j' = S"
      proof (cases "S = next_state")
        case True
        with a m' have "j' = j" by simp
        with True show ?thesis by (simp add: p1_def j_len)
      next
        case False
        with a m' have "m S = Some j'" by simp
        from map [OF this] show ?thesis by (simp add: len1 st1)
      qed
    qed
    have old_act: "\<And>k s d. row (action_table p) (St k) s = Some (Shift d) \<Longrightarrow>
        k < length (states p1) \<and> goto p1 (states p1 ! k) s \<noteq> {}"
      using act by (simp add: goto_cong [OF sg1] len1 st1 less_Suc_eq)
    have old_gt: "\<And>k s d. row (goto_table p) (St k) s = Some d \<Longrightarrow>
        k < length (states p1) \<and> goto p1 (states p1 ! k) s \<noteq> {}"
      using gt by (simp add: goto_cong [OF sg1] len1 st1 less_Suc_eq)
    have new_edge: "i < length (states p1) \<and> goto p1 (states p1 ! i) symbol \<noteq> {}"
      using i_lt i_st False by (simp add: goto_cong [OF sg1] len1 st1)
    show ?thesis
    proof (cases "symbol \<in> set (terminals p)")
      case True
      with res False None have p': "p' = p1\<lparr>action_table :=
          table_set (action_table p1) (St i) symbol (Shift j)\<rparr>"
        by (simp add: bfs_symbol_def Let_def next_state_def p1_def j_def)
      have sg: "same_grammar p1 p'" by (simp add: p' same_grammar_def)
      have "bfs_inv p' m'"
        unfolding bfs_inv_def
      proof (intro conjI allI impI)
        show "Suc (state_count p') = length (states p')" using cnt by (simp add: p' p1_def)
      next
        fix S j' assume "m' S = Some j'"
        from map' [OF this] show "j' < length (states p')" "states p' ! j' = S"
          by (simp_all add: p')
      next
        fix k s d assume a: "row (action_table p') (St k) s = Some (Shift d)"
        have "k < length (states p1) \<and> goto p1 (states p1 ! k) s \<noteq> {}"
        proof (cases "k = i \<and> s = symbol")
          case True
          with new_edge show ?thesis by simp
        next
          case False
          with a have "row (action_table p) (St k) s = Some (Shift d)"
            by (auto simp: p' p1_def row_table_set split: if_splits)
          then show ?thesis by (rule old_act)
        qed
        then show "k < length (states p')" "goto p' (states p' ! k) s \<noteq> {}"
          by (simp_all add: goto_cong [OF sg]) (simp_all add: p')
      next
        fix k s d assume "row (goto_table p') (St k) s = Some d"
        then have "row (goto_table p) (St k) s = Some d" by (simp add: p' p1_def)
        from old_gt [OF this]
        show "k < length (states p')" "goto p' (states p' ! k) s \<noteq> {}"
          by (simp_all add: goto_cong [OF sg]) (simp_all add: p')
      qed
      with idx m' ne show ?thesis by simp
    next
      case nt: False
      with res False None have p': "p' = p1\<lparr>goto_table :=
          table_set (goto_table p1) (St i) symbol j\<rparr>"
        by (simp add: bfs_symbol_def Let_def next_state_def p1_def j_def)
      have sg: "same_grammar p1 p'" by (simp add: p' same_grammar_def)
      have "bfs_inv p' m'"
        unfolding bfs_inv_def
      proof (intro conjI allI impI)
        show "Suc (state_count p') = length (states p')" using cnt by (simp add: p' p1_def)
      next
        fix S j' assume "m' S = Some j'"
        from map' [OF this] show "j' < length (states p')" "states p' ! j' = S"
          by (simp_all add: p')
      next
        fix k s d assume a: "row (goto_table p') (St k) s = Some d"
        have "k < length (states p1) \<and> goto p1 (states p1 ! k) s \<noteq> {}"
        proof (cases "k = i \<and> s = symbol")
          case True
          with new_edge show ?thesis by simp
        next
          case False
          with a have "row (goto_table p) (St k) s = Some d"
            by (auto simp: p' p1_def row_table_set split: if_splits)
          then show ?thesis by (rule old_gt)
        qed
        then show "k < length (states p')" "goto p' (states p' ! k) s \<noteq> {}"
          by (simp_all add: goto_cong [OF sg]) (simp_all add: p')
      next
        fix k s d assume "row (action_table p') (St k) s = Some (Shift d)"
        then have "row (action_table p) (St k) s = Some (Shift d)" by (simp add: p' p1_def)
        from old_act [OF this]
        show "k < length (states p')" "goto p' (states p' ! k) s \<noteq> {}"
          by (simp_all add: goto_cong [OF sg]) (simp_all add: p')
      qed
      with idx m' ne show ?thesis by simp
    qed
  qed
qed

lemma bfs_fold_inv:
  assumes "bfs_inv p m" and "m state = Some i"
    and "fold (bfs_symbol state i) symbols (p, m, q) = (p', m', q')"
  shows "bfs_inv p' m' \<and> m' state = Some i"
  using assms
proof (induction symbols arbitrary: p m q)
  case Nil
  then show ?case by simp
next
  case (Cons symbol symbols)
  obtain p1 m1 q1 where one: "bfs_symbol state i symbol (p, m, q) = (p1, m1, q1)"
    by (cases "bfs_symbol state i symbol (p, m, q)") auto
  from bfs_symbol_inv [OF Cons.prems(1,2) one]
  have "bfs_inv p1 m1" and "m1 state = Some i" by simp_all
  moreover from Cons.prems(3) one
  have "fold (bfs_symbol state i) symbols (p1, m1, q1) = (p', m', q')" by simp
  ultimately show ?case by (rule Cons.IH)
qed

lemma bfs_inv_edges_sound: "bfs_inv p m \<Longrightarrow> edges_sound p"
  unfolding bfs_inv_def edges_sound_def by blast

lemma bfs_loop_inv:
  "bfs_loop p m q = Some y \<Longrightarrow> y = Inr p' \<Longrightarrow> bfs_inv p m \<Longrightarrow> edges_sound p'"
proof (induction arbitrary: p' rule: bfs_loop.raw_induct [rotated 1, consumes 1, case_names step])
  case (step bfs_loop p m q y)
  show ?case
  proof (cases q)
    case Nil
    with step(2,3) have "p' = p" by simp
    with step(4) show ?thesis by (simp add: bfs_inv_edges_sound)
  next
    case (Cons state queue)
    show ?thesis
    proof (cases "m state")
      case None
      with step(2,3) Cons show ?thesis by simp
    next
      case (Some i)
      obtain p1 m1 q1 where
        f: "fold (bfs_symbol state i) (terminals p @ non_terminals p) (p, m, queue) = (p1, m1, q1)"
        by (cases "fold (bfs_symbol state i) (terminals p @ non_terminals p) (p, m, queue)") auto
      from step(2) Cons Some f have "bfs_loop p1 m1 q1 = Some y" by simp
      moreover from bfs_fold_inv [OF step(4) Some f] have "bfs_inv p1 m1" by simp
      ultimately show ?thesis using step(3) by (intro step(1)) simp_all
    qed
  qed
qed

lemma first_cong: "same_grammar p p' \<Longrightarrow> first n p' = first n p"
proof (induction n)
  case 0
  show ?case by (simp add: fun_eq_iff)
next
  case (Suc n)
  from Suc.prems have t: "terminals p' = terminals p" and g: "grammar p' = grammar p"
    by (simp_all add: same_grammar_def)
  show ?case
    by (simp add: fun_eq_iff Suc.IH [OF Suc.prems] g t cong: option.case_cong)
qed

lemma follow_cong: "same_grammar p p' \<Longrightarrow> follow n p' = follow n p"
proof (induction n)
  case 0
  show ?case by (simp add: fun_eq_iff)
next
  case (Suc n)
  from Suc.prems have t: "terminals p' = terminals p" and g: "grammar p' = grammar p"
    and s: "start_symbol p' = start_symbol p"
    by (simp_all add: same_grammar_def)
  show ?case
    by (simp add: fun_eq_iff Suc.IH [OF Suc.prems] first_cong [OF Suc.prems] g s t)
qed

section \<open>Properties of the table compiler\<close>

lemma reduce_frame_refl: "reduce_frame p p"
  by (simp add: reduce_frame_def same_grammar_refl)

lemma reduce_frame_trans: "reduce_frame p p' \<Longrightarrow> reduce_frame p' p'' \<Longrightarrow> reduce_frame p p''"
  by (auto simp: reduce_frame_def same_grammar_def)

lemma item_writes_cong:
  assumes "same_grammar p p'"
  shows "item_writes n p' = item_writes n p"
  using assms by (simp add: fun_eq_iff item_writes_def follow_cong [OF assms] same_grammar_def)

lemma item_action_cong: "same_grammar p p' \<Longrightarrow> item_action p' = item_action p"
  by (simp add: fun_eq_iff item_action_def same_grammar_def)

lemma cell_after_cong:
  assumes "same_grammar p p'"
  shows "cell_after n p' its t c = cell_after n p its t c"
  by (induction its arbitrary: c)
     (simp_all add: item_writes_cong [OF assms] item_action_cong [OF assms])

lemma cell_after_append:
  "cell_after n p (xs @ ys) t c = cell_after n p ys t (cell_after n p xs t c)"
  by (induction xs arbitrary: c) simp_all

lemma cell_after_untouched:
  "\<forall>it\<in>set its. \<not> item_writes n p it t \<Longrightarrow> cell_after n p its t c = c"
  by (induction its arbitrary: c) simp_all

lemma cell_after_last:
  assumes "item_writes n p it t" and "\<forall>it'\<in>set after. \<not> item_writes n p it' t"
  shows "cell_after n p (before @ it # after) t c = Some (item_action p it)"
  using assms by (simp add: cell_after_append cell_after_untouched)

lemma item_action_not_shift: "item_action p it \<noteq> Shift d"
  by (simp add: item_action_def split: prod.splits)

lemma cell_after_shift: "cell_after n p its t c = Some (Shift d) \<Longrightarrow> c = Some (Shift d)"
proof (induction its arbitrary: c)
  case Nil
  then show ?case by simp
next
  case (Cons it its)
  from Cons.prems have "(if item_writes n p it t then Some (item_action p it) else c) = Some (Shift d)"
    using Cons.IH [of "if item_writes n p it t then Some (item_action p it) else c"] by simp
  then show ?case
    by (simp add: item_action_not_shift split: if_splits)
qed

lemma row_table_set_all:
  "row (table_set_all t k symbols v) k' symbol =
     (if k' = k \<and> symbol \<in> symbols then Some v else row t k' symbol)"
  by (auto simp: table_set_all_def row_def)

lemma reduce_item_effect:
  assumes "reduce_item n i it p = Some (Inr p')"
  shows "reduce_frame p p'"
    and "row (action_table p') k t =
       (if k = St i \<and> item_writes n p it t then Some (item_action p it) else row (action_table p) k t)"
proof -
  obtain lhs rhs dot_pos where it: "it = (lhs, rhs, dot_pos)" by (cases it) auto
  have "reduce_frame p p' \<and> row (action_table p') k t =
       (if k = St i \<and> item_writes n p it t then Some (item_action p it) else row (action_table p) k t)"
  proof (cases "dot_pos = length rhs")
    case False
    with assms have "p' = p" by (simp add: it reduce_item_def)
    with False show ?thesis by (simp add: it item_writes_def reduce_frame_refl)
  next
    case complete: True
    show ?thesis
    proof (cases "lhs = start_symbol p")
      case True
      with assms complete
      have "p' = p\<lparr>action_table := table_set (action_table p) (St i) ''$'' Accept\<rparr>"
        by (simp add: it reduce_item_def)
      with True complete show ?thesis
        by (simp add: it item_writes_def item_action_def row_table_set reduce_frame_def
            same_grammar_def)
    next
      case False
      with assms complete obtain follow_set where
        fol: "follow n p lhs = Some (Inr follow_set)"
        and p': "p' = p\<lparr>action_table :=
           table_set_all (action_table p) (St i) follow_set (Reduce lhs rhs)\<rparr>"
        by (auto simp: it reduce_item_def split: sum.splits option.splits)
      with False complete show ?thesis
        by (simp add: it item_writes_def item_action_def row_table_set_all reduce_frame_def
            same_grammar_def)
    qed
  qed
  then show "reduce_frame p p'"
    and "row (action_table p') k t =
       (if k = St i \<and> item_writes n p it t then Some (item_action p it) else row (action_table p) k t)"
    by simp_all
qed

lemma reduce_items_effect:
  assumes "fold_outcome (reduce_item n i) its p = Some (Inr p')"
  shows "reduce_frame p p' \<and>
    (\<forall>k t. row (action_table p') k t =
       (if k = St i then cell_after n p its t (row (action_table p) k t) else row (action_table p) k t))"
  using assms
proof (induction its arbitrary: p)
  case Nil
  then show ?case by (simp add: reduce_frame_refl)
next
  case (Cons it its)
  from Cons.prems obtain p1 where one: "reduce_item n i it p = Some (Inr p1)"
    and rest: "fold_outcome (reduce_item n i) its p1 = Some (Inr p')"
    by (auto split: option.splits sum.splits)
  note e = reduce_item_effect [OF one]
  from e(1) have sg: "same_grammar p p1" by (simp add: reduce_frame_def)
  from Cons.IH [OF rest] have f: "reduce_frame p1 p'"
    and r: "\<And>k t. row (action_table p') k t =
       (if k = St i then cell_after n p1 its t (row (action_table p1) k t) else row (action_table p1) k t)"
    by simp_all
  from e(1) f have "reduce_frame p p'" by (rule reduce_frame_trans)
  moreover have "\<And>k t. row (action_table p') k t =
       (if k = St i then cell_after n p (it # its) t (row (action_table p) k t) else row (action_table p) k t)"
    by (simp add: r e(2) cell_after_cong [OF sg])
  ultimately show ?case by blast
qed

lemma reduce_state_pair:
  "reduce_state iter n (j, S) p = fold_outcome (reduce_item n j) (iter S) p"
  by (simp add: reduce_state_def)

lemma reduce_states_effect:
  assumes "fold_outcome (reduce_state iter n) ps p = Some (Inr p')" and "distinct (map fst ps)"
  shows "reduce_frame p p' \<and>
    (\<forall>k t. row (action_table p') k t =
       (case k of
          St i \<Rightarrow> (case map_of ps i of
                     None \<Rightarrow> row (action_table p) k t
                   | Some S \<Rightarrow> cell_after n p (iter S) t (row (action_table p) k t))
        | Sym x \<Rightarrow> row (action_table p) k t))"
  using assms
proof (induction ps arbitrary: p)
  case Nil
  then show ?case by (simp add: reduce_frame_refl split: stack_entry.splits)
next
  case (Cons jS ps)
  obtain j S where jS: "jS = (j, S)" by (cases jS) auto
  from Cons.prems(1) obtain p1 where one: "fold_outcome (reduce_item n j) (iter S) p = Some (Inr p1)"
    and rest: "fold_outcome (reduce_state iter n) ps p1 = Some (Inr p')"
    by (auto simp: jS reduce_state_pair split: option.splits sum.splits)
  from Cons.prems(2) have dist: "distinct (map fst ps)" and fresh: "j \<notin> fst ` set ps"
    by (simp_all add: jS)
  from fresh have none: "map_of ps j = None"
    by (simp add: map_of_eq_None_iff)
  from reduce_items_effect [OF one] have f1: "reduce_frame p p1"
    and r1: "\<And>k t. row (action_table p1) k t =
       (if k = St j then cell_after n p (iter S) t (row (action_table p) k t)
        else row (action_table p) k t)"
    by simp_all
  from f1 have sg: "same_grammar p p1" by (simp add: reduce_frame_def)
  from Cons.IH [OF rest dist] have f2: "reduce_frame p1 p'"
    and r2: "\<And>k t. row (action_table p') k t =
       (case k of
          St i \<Rightarrow> (case map_of ps i of
                     None \<Rightarrow> row (action_table p1) k t
                   | Some S \<Rightarrow> cell_after n p1 (iter S) t (row (action_table p1) k t))
        | Sym x \<Rightarrow> row (action_table p1) k t)"
    by simp_all
  have "reduce_frame p p'" using f1 f2 by (rule reduce_frame_trans)
  moreover have "row (action_table p') k t =
       (case k of
          St i \<Rightarrow> (case map_of (jS # ps) i of
                     None \<Rightarrow> row (action_table p) k t
                   | Some S \<Rightarrow> cell_after n p (iter S) t (row (action_table p) k t))
        | Sym x \<Rightarrow> row (action_table p) k t)" for k t
  proof (cases k)
    case (Sym x)
    then show ?thesis by (simp add: r2 r1)
  next
    case (St i)
    show ?thesis
    proof (cases "i = j")
      case True
      with St none show ?thesis by (simp add: r2 r1 jS)
    next
      case False
      with St show ?thesis
        by (simp add: r2 r1 jS cell_after_cong [OF sg] split: option.splits)
    qed
  qed
  ultimately show ?case by blast
qed

lemma map_of_enumerate:
  "map_of (enumerate 0 xs) i = (if i < length xs then Some (xs ! i) else None)"
proof (cases "i < length xs")
  case True
  have "map_of (zip [0..<length xs] xs) ([0..<length xs] ! i) = Some (xs ! i)"
    using True by (intro map_of_zip_nth) simp_all
  with True show ?thesis by (simp add: enumerate_eq_zip)
next
  case False
  have "fst ` set (enumerate 0 xs) = {0..<length xs}"
    by (simp flip: set_map)
  with False have "i \<notin> fst ` set (enumerate 0 xs)"
    by simp
  then show ?thesis using False by (simp add: map_of_eq_None_iff)
qed

lemma reduce_phase_effect:
  assumes "reduce_phase iter n p = Some (Inr p')"
  shows "reduce_frame p p'"
    and "i < length (states p) \<Longrightarrow>
       row (action_table p') (St i) t =
         cell_after n p (iter (states p ! i)) t (row (action_table p) (St i) t)"
    and "\<not> i < length (states p) \<Longrightarrow> row (action_table p') (St i) t = row (action_table p) (St i) t"
    and "row (action_table p') (Sym x) t = row (action_table p) (Sym x) t"
proof -
  have d: "distinct (map fst (enumerate 0 (states p)))" by simp
  from assms have "fold_outcome (reduce_state iter n) (enumerate 0 (states p)) p = Some (Inr p')"
    by (simp add: reduce_phase_def)
  note e = reduce_states_effect [OF this d]
  from e show "reduce_frame p p'" by simp
  from e have r: "row (action_table p') k t =
       (case k of
          St i \<Rightarrow> (case map_of (enumerate 0 (states p)) i of
                     None \<Rightarrow> row (action_table p) k t
                   | Some S \<Rightarrow> cell_after n p (iter S) t (row (action_table p) k t))
        | Sym x \<Rightarrow> row (action_table p) k t)" for k
    by simp
  show "i < length (states p) \<Longrightarrow>
       row (action_table p') (St i) t =
         cell_after n p (iter (states p ! i)) t (row (action_table p) (St i) t)"
    by (simp add: r map_of_enumerate)
  show "\<not> i < length (states p) \<Longrightarrow> row (action_table p') (St i) t = row (action_table p) (St i) t"
    by (simp add: r map_of_enumerate)
  show "row (action_table p') (Sym x) t = row (action_table p) (Sym x) t"
    by (simp add: r)
qed

lemma items_split:
  assumes "items iter n p0 = Some (Inr p)"
  obtains production rest pb where
    "map_of (grammar p0) (start_symbol p0) = Some (production # rest)"
    "bfs_loop (p0\<lparr>states := states p0 @ [closure p0 {(start_symbol p0, production, 0)}]\<rparr>)
       [closure p0 {(start_symbol p0, production, 0)} \<mapsto> 0]
       [closure p0 {(start_symbol p0, production, 0)}] = Some (Inr pb)"
    "reduce_phase iter n pb = Some (Inr p)"
proof (cases "map_of (grammar p0) (start_symbol p0)")
  case None
  with assms show ?thesis by (simp add: items_def)
next
  case (Some productions)
  show ?thesis
  proof (cases productions)
    case Nil
    with assms Some show ?thesis by (simp add: items_def)
  next
    case (Cons production rest)
    define I0 where "I0 = closure p0 {(start_symbol p0, production, 0)}"
    show ?thesis
    proof (cases "bfs_loop (p0\<lparr>states := states p0 @ [I0]\<rparr>) [I0 \<mapsto> 0] [I0]")
      case None
      with assms Some Cons show ?thesis by (simp add: items_def Let_def I0_def)
    next
      case bfs: (Some r)
      show ?thesis
      proof (cases r)
        case (Inl e)
        with assms Some Cons bfs show ?thesis by (simp add: items_def Let_def I0_def)
      next
        case (Inr pb)
        with assms Some Cons bfs have "reduce_phase iter n pb = Some (Inr p)"
          by (simp add: items_def Let_def I0_def)
        with Some Cons bfs Inr that show ?thesis by (simp add: I0_def)
      qed
    qed
  qed
qed

text \<open>
  Claim C2. After \<^verbatim>\<open>items\<close> has returned, take a state \<open>i\<close> and a complete item that the
  second loop visits in that state, and a terminal \<open>t\<close> whose cell no item visited later in
  the same state writes. If the item's left-hand side is the start symbol, the cell under
  the end marker holds \<^verbatim>\<open>accept\<close>; otherwise the cell under every \<open>t\<close> in FOLLOW of the
  left-hand side holds the item's \<^verbatim>\<open>reduce\<close>. So every complete item installs its action,
  an action written earlier into the same cell (a shift of the first loop, or the action
  of an item visited earlier) is replaced, and the call returns all the same.
\<close>

theorem table_compilation_postcondition:
  assumes "items iter n p0 = Some (Inr p)"
    and "i < length (states p)"
    and "iter (states p ! i) = before @ (lhs, rhs, length rhs) # after"
    and "\<forall>it\<in>set after. \<not> item_writes n p it t"
  shows "(lhs = start_symbol p \<and> t = ''$'' \<longrightarrow> row (action_table p) (St i) t = Some Accept)
       \<and> (lhs \<noteq> start_symbol p \<and> follow n p lhs = Some (Inr follow_set) \<and> t \<in> follow_set \<longrightarrow>
            row (action_table p) (St i) t = Some (Reduce lhs rhs))"
proof -
  from assms(1) obtain pb where phase: "reduce_phase iter n pb = Some (Inr p)"
    by (rule items_split)
  note e = reduce_phase_effect [OF phase]
  from e(1) have sg: "same_grammar pb p" and st: "states p = states pb"
    by (simp_all add: reduce_frame_def)
  from assms(2) st have i: "i < length (states pb)" by simp
  have cell: "row (action_table p) (St i) t =
      cell_after n p (before @ (lhs, rhs, length rhs) # after) t (row (action_table pb) (St i) t)"
    using e(2) [OF i, of t] assms(3) st by (simp add: cell_after_cong [OF sg])
  have last: "item_writes n p (lhs, rhs, length rhs) t \<Longrightarrow>
      row (action_table p) (St i) t = Some (item_action p (lhs, rhs, length rhs))"
    unfolding cell using assms(4) by (intro cell_after_last) simp_all
  show ?thesis
  proof (intro conjI impI)
    assume "lhs = start_symbol p \<and> t = ''$''"
    then show "row (action_table p) (St i) t = Some Accept"
      using last by (simp add: item_writes_def item_action_def)
  next
    assume "lhs \<noteq> start_symbol p \<and> follow n p lhs = Some (Inr follow_set) \<and> t \<in> follow_set"
    then show "row (action_table p) (St i) t = Some (Reduce lhs rhs)"
      using last by (simp add: item_writes_def item_action_def)
  qed
qed

text \<open>
  In \<^verbatim>\<open>S' \<rightarrow> S, S \<rightarrow> A | B, A \<rightarrow> a, B \<rightarrow> a\<close> state 1 holds the complete items of both \<^verbatim>\<open>A\<close> and
  \<^verbatim>\<open>B\<close>, and both write the cell under the end marker; visited in sorted order, the item
  of \<^verbatim>\<open>B\<close> comes last and its \<^verbatim>\<open>reduce\<close> is what the cell holds.
\<close>

lemma conflict_eval:
  "(case items sorted_list_of_set 4 conflict_parser of
      Some (Inr p) \<Rightarrow>
        1 < length (states p)
        \<and> sorted_list_of_set (states p ! 1) = [(''A'', [''a''], 1)] @ (''B'', [''a''], length [''a'']) # []
        \<and> ''B'' \<noteq> start_symbol p
        \<and> follow 4 p ''B'' = Some (Inr {''$''})
    | _ \<Rightarrow> False)"
  by code_simp

theorem table_compilation_postcondition_witness:
  "\<exists>p. items sorted_list_of_set 4 conflict_parser = Some (Inr p)
     \<and> row (action_table p) (St 1) ''$'' = Some (Reduce ''B'' [''a''])"
proof -
  from conflict_eval obtain p where
    built: "items sorted_list_of_set 4 conflict_parser = Some (Inr p)"
    and len: "1 < length (states p)"
    and order: "sorted_list_of_set (states p ! 1) =
        [(''A'', [''a''], 1)] @ (''B'', [''a''], length [''a'']) # []"
    and nstart: "''B'' \<noteq> start_symbol p"
    and fol: "follow 4 p ''B'' = Some (Inr {''$''})"
    by (auto split: option.splits sum.splits)
  have none: "\<forall>it\<in>set []. \<not> item_writes 4 p it ''$''"
    by simp
  from table_compilation_postcondition [OF built len order none, of "{''$''}"] nstart fol
  have "row (action_table p) (St 1) ''$'' = Some (Reduce ''B'' [''a''])"
    by simp
  with built show ?thesis by blast
qed

lemma bfs_symbol_only_shifts:
  assumes "only_shifts p" and "bfs_symbol state i symbol (p, m, q) = (p', m', q')"
  shows "only_shifts p'"
proof -
  from assms(2) have "action_table p' = action_table p
      \<or> (\<exists>j. action_table p' = table_set (action_table p) (St i) symbol (Shift j))"
    by (auto simp: bfs_symbol_def Let_def split: option.splits if_splits)
  then show ?thesis
  proof
    assume "action_table p' = action_table p"
    with assms(1) show ?thesis by (simp add: only_shifts_def)
  next
    assume "\<exists>j. action_table p' = table_set (action_table p) (St i) symbol (Shift j)"
    then obtain j where "action_table p' = table_set (action_table p) (St i) symbol (Shift j)" ..
    with assms(1) show ?thesis
      by (auto simp: only_shifts_def row_table_set split: if_splits)
  qed
qed

lemma bfs_fold_only_shifts:
  assumes "only_shifts p" and "fold (bfs_symbol state i) symbols (p, m, q) = (p', m', q')"
  shows "only_shifts p'"
  using assms
proof (induction symbols arbitrary: p m q)
  case Nil
  then show ?case by simp
next
  case (Cons symbol symbols)
  obtain p1 m1 q1 where one: "bfs_symbol state i symbol (p, m, q) = (p1, m1, q1)"
    by (cases "bfs_symbol state i symbol (p, m, q)") auto
  from Cons.prems(1) one have "only_shifts p1" by (rule bfs_symbol_only_shifts)
  moreover from Cons.prems(2) one
  have "fold (bfs_symbol state i) symbols (p1, m1, q1) = (p', m', q')" by simp
  ultimately show ?case by (rule Cons.IH)
qed

lemma bfs_loop_only_shifts:
  "bfs_loop p m q = Some y \<Longrightarrow> y = Inr p' \<Longrightarrow> only_shifts p \<Longrightarrow> only_shifts p'"
proof (induction arbitrary: p' rule: bfs_loop.raw_induct [rotated 1, consumes 1, case_names step])
  case (step bfs_loop p m q y)
  show ?case
  proof (cases q)
    case Nil
    with step(2,3) have "p' = p" by simp
    with step(4) show ?thesis by simp
  next
    case (Cons state queue)
    show ?thesis
    proof (cases "m state")
      case None
      with step(2,3) Cons show ?thesis by simp
    next
      case (Some i)
      obtain p1 m1 q1 where
        f: "fold (bfs_symbol state i) (terminals p @ non_terminals p) (p, m, queue) = (p1, m1, q1)"
        by (cases "fold (bfs_symbol state i) (terminals p @ non_terminals p) (p, m, queue)") auto
      from step(2) Cons Some f have loop: "bfs_loop p1 m1 q1 = Some y" by simp
      from step(4) f have "only_shifts p1" by (rule bfs_fold_only_shifts)
      with loop step(3) show ?thesis by (rule step(1))
    qed
  qed
qed

lemma items_first_loop:
  assumes "items iter n (LRParser g ts nts s) = Some (Inr p)"
  shows "\<exists>pb. edges_sound pb \<and> only_shifts pb \<and> reduce_phase iter n pb = Some (Inr p)"
proof -
  from assms obtain production pb where
    bfs: "bfs_loop ((LRParser g ts nts s)\<lparr>states := states (LRParser g ts nts s) @
            [closure (LRParser g ts nts s) {(start_symbol (LRParser g ts nts s), production, 0)}]\<rparr>)
       [closure (LRParser g ts nts s) {(start_symbol (LRParser g ts nts s), production, 0)} \<mapsto> 0]
       [closure (LRParser g ts nts s) {(start_symbol (LRParser g ts nts s), production, 0)}] = Some (Inr pb)"
    and phase: "reduce_phase iter n pb = Some (Inr p)"
    by (rule items_split)
  define I0 where "I0 = closure (LRParser g ts nts s) {(start_symbol (LRParser g ts nts s), production, 0)}"
  define P1 where "P1 = (LRParser g ts nts s)\<lparr>states := states (LRParser g ts nts s) @ [I0]\<rparr>"
  have inv: "bfs_inv P1 [I0 \<mapsto> 0]"
    by (simp add: P1_def bfs_inv_def row_def LRParser_def)
  have shifts: "only_shifts P1"
    by (simp add: P1_def only_shifts_def row_def LRParser_def)
  from bfs have loop: "bfs_loop P1 [I0 \<mapsto> 0] [I0] = Some (Inr pb)"
    by (simp add: P1_def I0_def)
  from loop refl inv have "edges_sound pb" by (rule bfs_loop_inv)
  moreover from loop refl shifts have "only_shifts pb" by (rule bfs_loop_only_shifts)
  ultimately show ?thesis using phase by blast
qed

lemma cell_after_cases:
  "cell_after n p its t c = c
   \<or> (\<exists>it\<in>set its. item_writes n p it t \<and> cell_after n p its t c = Some (item_action p it))"
proof (induction its arbitrary: c)
  case Nil
  show ?case by simp
next
  case (Cons it its)
  show ?case
  proof (cases "item_writes n p it t")
    case False
    with Cons.IH [of c] show ?thesis by auto
  next
    case True
    with Cons.IH [of "Some (item_action p it)"] show ?thesis by auto
  qed
qed

text \<open>
  Claim C6, as amended. After a fresh parser object has run \<^verbatim>\<open>items\<close>, take a state \<open>i\<close>
  and a symbol on which \<^verbatim>\<open>goto\<close> of that state is empty. The goto table has no entry for
  the pair. The cell of the action table is exactly what the second loop of \<^verbatim>\<open>items\<close>
  makes of an empty cell: it is empty, or it holds the \<^verbatim>\<open>accept\<close> of a complete item that
  the loop visits in state \<open>i\<close>, whose left-hand side is the start symbol, the symbol
  being the end marker, or the \<^verbatim>\<open>reduce\<close> of a complete item that the loop visits in
  state \<open>i\<close>, the symbol being in FOLLOW of its left-hand side. It never holds a shift,
  and never an action that no item of the state has written.
\<close>

theorem no_edge_no_entry:
  assumes "items iter n (LRParser g ts nts s) = Some (Inr p)"
    and "i < length (states p)"
    and "goto p (states p ! i) symbol = {}"
  shows "row (goto_table p) (St i) symbol = None
    \<and> row (action_table p) (St i) symbol = cell_after n p (iter (states p ! i)) symbol None
    \<and> (row (action_table p) (St i) symbol = None
       \<or> (\<exists>lhs rhs. (lhs, rhs, length rhs) \<in> set (iter (states p ! i))
            \<and> (lhs = start_symbol p \<and> symbol = ''$''
                 \<and> row (action_table p) (St i) symbol = Some Accept
               \<or> lhs \<noteq> start_symbol p
                 \<and> (\<exists>follow_set. follow n p lhs = Some (Inr follow_set) \<and> symbol \<in> follow_set)
                 \<and> row (action_table p) (St i) symbol = Some (Reduce lhs rhs))))"
proof -
  from items_first_loop [OF assms(1)] obtain pb where
    sound: "edges_sound pb" and shifts: "only_shifts pb"
    and phase: "reduce_phase iter n pb = Some (Inr p)"
    by blast
  note e = reduce_phase_effect [OF phase]
  from e(1) have sg: "same_grammar pb p" and st: "states p = states pb"
    and gt: "goto_table p = goto_table pb"
    by (simp_all add: reduce_frame_def)
  from assms(3) have empty: "goto pb (states pb ! i) symbol = {}"
    by (simp add: st goto_cong [OF sg])
  from assms(2) st have i: "i < length (states pb)" by simp
  have goto_none: "row (goto_table p) (St i) symbol = None"
  proof (cases "row (goto_table pb) (St i) symbol")
    case None
    then show ?thesis by (simp add: gt)
  next
    case (Some d)
    with sound have "goto pb (states pb ! i) symbol \<noteq> {}"
      unfolding edges_sound_def by blast
    with empty show ?thesis by simp
  qed
  have before: "row (action_table pb) (St i) symbol = None"
  proof (cases "row (action_table pb) (St i) symbol")
    case None
    then show ?thesis .
  next
    case (Some a)
    with shifts obtain d where "a = Shift d"
      unfolding only_shifts_def by blast
    with Some sound have "goto pb (states pb ! i) symbol \<noteq> {}"
      unfolding edges_sound_def by blast
    with empty show ?thesis by simp
  qed
  have cell: "row (action_table p) (St i) symbol
      = cell_after n p (iter (states p ! i)) symbol None"
    using e(2) [OF i, of symbol] before by (simp add: st cell_after_cong [OF sg])
  from cell_after_cases [of n p "iter (states p ! i)" symbol None]
  have "row (action_table p) (St i) symbol = None
       \<or> (\<exists>lhs rhs. (lhs, rhs, length rhs) \<in> set (iter (states p ! i))
            \<and> (lhs = start_symbol p \<and> symbol = ''$''
                 \<and> row (action_table p) (St i) symbol = Some Accept
               \<or> lhs \<noteq> start_symbol p
                 \<and> (\<exists>follow_set. follow n p lhs = Some (Inr follow_set) \<and> symbol \<in> follow_set)
                 \<and> row (action_table p) (St i) symbol = Some (Reduce lhs rhs)))"
  proof
    assume "cell_after n p (iter (states p ! i)) symbol None = None"
    with cell show ?thesis by simp
  next
    assume "\<exists>it\<in>set (iter (states p ! i)). item_writes n p it symbol
        \<and> cell_after n p (iter (states p ! i)) symbol None = Some (item_action p it)"
    then obtain it where mem: "it \<in> set (iter (states p ! i))"
      and w: "item_writes n p it symbol"
      and val: "row (action_table p) (St i) symbol = Some (item_action p it)"
      using cell by auto
    obtain lhs rhs dot_pos where it: "it = (lhs, rhs, dot_pos)" by (cases it) auto
    from w have dot: "dot_pos = length rhs"
      by (simp add: it item_writes_def)
    show ?thesis
    proof (cases "lhs = start_symbol p")
      case True
      with w val mem show ?thesis
        by (auto simp: it dot item_writes_def item_action_def)
    next
      case False
      with w obtain follow_set where "follow n p lhs = Some (Inr follow_set)" "symbol \<in> follow_set"
        by (auto simp: it item_writes_def split: option.splits sum.splits)
      with False val mem show ?thesis
        by (auto simp: it dot item_action_def)
    qed
  qed
  with goto_none cell show ?thesis by blast
qed

lemma tiny_eval:
  "(case items sorted_list_of_set 3 tiny_parser of
      Some (Inr p) \<Rightarrow>
        1 < length (states p)
        \<and> goto p (states p ! 0) ''$'' = {}
        \<and> goto p (states p ! 1) ''$'' = {}
        \<and> row (action_table p) (St 1) ''$'' = Some (Reduce ''S'' [''a''])
    | _ \<Rightarrow> False)"
  by code_simp

theorem no_edge_no_entry_witness:
  "\<exists>p. items sorted_list_of_set 3 tiny_parser = Some (Inr p)
     \<and> row (goto_table p) (St 1) ''$'' = None
     \<and> row (action_table p) (St 1) ''$''
         = cell_after 3 p (sorted_list_of_set (states p ! 1)) ''$'' None
     \<and> row (action_table p) (St 1) ''$'' = Some (Reduce ''S'' [''a''])"
proof -
  from tiny_eval obtain p where
    built: "items sorted_list_of_set 3 tiny_parser = Some (Inr p)"
    and len: "1 < length (states p)"
    and empty: "goto p (states p ! 1) ''$'' = {}"
    and cell: "row (action_table p) (St 1) ''$'' = Some (Reduce ''S'' [''a''])"
    by (auto split: option.splits sum.splits)
  from built have "items sorted_list_of_set 3
      (LRParser [(S_prime, [[''S'']]), (''S'', [[''a'']])] [''a''] [''S''] S_prime) = Some (Inr p)"
    by (simp add: tiny_parser_def)
  from no_edge_no_entry [OF this len empty] built cell show ?thesis by blast
qed

text \<open>
  The claim as written fails: in \<^verbatim>\<open>S' \<rightarrow> S, S \<rightarrow> a\<close> state 1 is \<^verbatim>\<open>{S \<rightarrow> a .}\<close>; it has no edge
  on the end marker, and the action table holds a \<^verbatim>\<open>reduce\<close> there.
\<close>

theorem reduce_without_edge_counterexample:
  "\<exists>p. items sorted_list_of_set 3 tiny_parser = Some (Inr p)
     \<and> 1 < length (states p)
     \<and> goto p (states p ! 1) ''$'' = {}
     \<and> row (action_table p) (St 1) ''$'' = Some (Reduce ''S'' [''a''])"
  using tiny_eval by (auto split: option.splits sum.splits)

section \<open>Properties of the end marker\<close>

lemma parse_loop_run:
  "parse_loop p inp stack index =
     (case parse_run k p inp stack index of
        Raise e p' \<Rightarrow> Some (Inl e, p')
      | Return b p' \<Rightarrow> Some (Inr b, p')
      | Continue p' stack' index' \<Rightarrow> parse_loop p' inp stack' index')"
proof (induction k arbitrary: p stack index)
  case 0
  show ?case by simp
next
  case (Suc k)
  show ?case
  proof (cases "parse_step p inp stack index")
    case (Raise e p')
    then show ?thesis by (simp add: parse_loop_raise)
  next
    case (Return b p')
    then show ?thesis by (simp add: parse_loop_return)
  next
    case (Continue p' stack' index')
    then have "parse_loop p inp stack index = parse_loop p' inp stack' index'"
      by (rule parse_loop_continue)
    also have "\<dots> =
       (case parse_run k p' inp stack' index' of
          Raise e p' \<Rightarrow> Some (Inl e, p')
        | Return b p' \<Rightarrow> Some (Inr b, p')
        | Continue p' stack' index' \<Rightarrow> parse_loop p' inp stack' index')"
      by (rule Suc.IH)
    also have "parse_run k p' inp stack' index' = parse_run (Suc k) p inp stack index"
      using Continue by simp
    finally show ?thesis .
  qed
qed

lemma rhs_known_cong: "same_grammar p p' \<Longrightarrow> rhs_known p' S = rhs_known p S"
  by (simp add: rhs_known_def same_grammar_def)

lemma rhs_known_grammar_items: "rhs_known p (grammar_items p)"
  by (force simp: rhs_known_def grammar_items_def)

lemma rhs_known_goto_set: "rhs_known p S \<Longrightarrow> rhs_known p (goto_set S symbol)"
  by (force simp: rhs_known_def goto_set_def)

lemma rhs_known_goto:
  assumes "rhs_known p S"
  shows "rhs_known p (goto p S symbol)"
proof -
  have "goto p S symbol \<subseteq> goto_set S symbol \<union> grammar_items p"
    unfolding goto_def closure_def by (rule closure_loop_subset)
  moreover have "rhs_known p (goto_set S symbol \<union> grammar_items p)"
    using rhs_known_goto_set [OF assms, of symbol] rhs_known_grammar_items [of p]
    by (auto simp: rhs_known_def)
  ultimately show ?thesis
    unfolding rhs_known_def by blast
qed

lemma goto_end_marker_empty:
  assumes "dollar_free (grammar p)" and "rhs_known p S"
  shows "goto p S ''$'' = {}"
proof -
  have "goto_set S ''$'' = {}"
  proof (rule ccontr)
    assume "goto_set S ''$'' \<noteq> {}"
    then obtain lhs rhs dot_pos where it: "(lhs, rhs, dot_pos) \<in> S"
      and dot: "dot_pos < length rhs" and at: "rhs ! dot_pos = ''$''"
      by (auto simp: goto_set_def)
    from dot at have "''$'' \<in> set rhs"
      by (metis nth_mem)
    moreover from assms(2) it obtain entry where "entry \<in> set (grammar p)" "rhs \<in> set (snd entry)"
      by (force simp: rhs_known_def)
    ultimately show False
      using assms(1) by (auto simp: dollar_free_def)
  qed
  then show ?thesis
    by (simp add: goto_def closure_empty)
qed

lemma bfs_symbol_end_marker:
  assumes free: "dollar_free (grammar p)" and state: "rhs_known p state"
    and queue: "\<forall>S\<in>set q. rhs_known p S" and ns: "no_shift_on_end p"
    and res: "bfs_symbol state i symbol (p, m, q) = (p', m', q')"
  shows "(\<forall>S\<in>set q'. rhs_known p' S) \<and> no_shift_on_end p' \<and> same_grammar p p'"
proof -
  from bfs_symbol_same_grammar [of "(p, m, q)" state i symbol] res
  have sg: "same_grammar p p'" by simp
  show ?thesis
  proof (cases "goto p state symbol = {}")
    case True
    with res have "p' = p" "q' = q" by (simp_all add: bfs_symbol_def)
    with queue ns sg show ?thesis by simp
  next
    case False
    with goto_end_marker_empty [OF free state] have sym: "symbol \<noteq> ''$''"
      by auto
    have known: "rhs_known p (goto p state symbol)"
      using state by (rule rhs_known_goto)
    from res False have q': "set q' \<subseteq> set q \<union> {goto p state symbol}"
      by (auto simp: bfs_symbol_def Let_def split: option.splits if_splits)
    from res False sym have "row (action_table p') k ''$'' = row (action_table p) k ''$''" for k
      by (auto simp: bfs_symbol_def Let_def row_table_set split: option.splits if_splits)
    with ns have "no_shift_on_end p'"
      by (simp add: no_shift_on_end_def)
    moreover from q' queue known have "\<forall>S\<in>set q'. rhs_known p' S"
      by (auto simp: rhs_known_cong [OF sg])
    ultimately show ?thesis using sg by simp
  qed
qed

lemma bfs_fold_end_marker:
  assumes "dollar_free (grammar p)" and "rhs_known p state"
    and "\<forall>S\<in>set q. rhs_known p S" and "no_shift_on_end p"
    and "fold (bfs_symbol state i) symbols (p, m, q) = (p', m', q')"
  shows "(\<forall>S\<in>set q'. rhs_known p' S) \<and> no_shift_on_end p' \<and> same_grammar p p'"
  using assms
proof (induction symbols arbitrary: p m q)
  case Nil
  then show ?case by (simp add: same_grammar_refl)
next
  case (Cons symbol symbols)
  obtain p1 m1 q1 where one: "bfs_symbol state i symbol (p, m, q) = (p1, m1, q1)"
    by (cases "bfs_symbol state i symbol (p, m, q)") auto
  from bfs_symbol_end_marker [OF Cons.prems(1-4) one]
  have q1: "\<forall>S\<in>set q1. rhs_known p1 S" and ns1: "no_shift_on_end p1" and sg: "same_grammar p p1"
    by simp_all
  from sg Cons.prems(1) have free1: "dollar_free (grammar p1)"
    by (simp add: same_grammar_def)
  from sg Cons.prems(2) have st1: "rhs_known p1 state"
    by (simp add: rhs_known_cong [OF sg])
  from Cons.prems(5) one
  have "fold (bfs_symbol state i) symbols (p1, m1, q1) = (p', m', q')" by simp
  from Cons.IH [OF free1 st1 q1 ns1 this] sg show ?case
    using same_grammar_trans by blast
qed

lemma bfs_loop_end_marker:
  "bfs_loop p m q = Some y \<Longrightarrow> y = Inr p' \<Longrightarrow> dollar_free (grammar p) \<Longrightarrow>
   \<forall>S\<in>set q. rhs_known p S \<Longrightarrow> no_shift_on_end p \<Longrightarrow> no_shift_on_end p'"
proof (induction arbitrary: p' rule: bfs_loop.raw_induct [rotated 1, consumes 1, case_names step])
  case (step bfs_loop p m q y)
  show ?case
  proof (cases q)
    case Nil
    with step(2,3) have "p' = p" by simp
    with step(6) show ?thesis by simp
  next
    case (Cons state queue)
    show ?thesis
    proof (cases "m state")
      case None
      with step(2,3) Cons show ?thesis by simp
    next
      case (Some i)
      obtain p1 m1 q1 where
        f: "fold (bfs_symbol state i) (terminals p @ non_terminals p) (p, m, queue) = (p1, m1, q1)"
        by (cases "fold (bfs_symbol state i) (terminals p @ non_terminals p) (p, m, queue)") auto
      from step(2) Cons Some f have loop: "bfs_loop p1 m1 q1 = Some y" by simp
      from step(5) Cons have st: "rhs_known p state" and qu: "\<forall>S\<in>set queue. rhs_known p S"
        by simp_all
      from bfs_fold_end_marker [OF step(4) st qu step(6) f]
      have q1: "\<forall>S\<in>set q1. rhs_known p1 S" and ns1: "no_shift_on_end p1"
        and sg: "same_grammar p p1"
        by simp_all
      from sg step(4) have free1: "dollar_free (grammar p1)"
        by (simp add: same_grammar_def)
      from loop step(3) free1 q1 ns1 show ?thesis by (rule step(1))
    qed
  qed
qed

lemma reduce_phase_no_shift:
  assumes "reduce_phase iter n pb = Some (Inr p)" and "no_shift_on_end pb"
  shows "no_shift_on_end p"
  unfolding no_shift_on_end_def
proof (intro allI notI)
  fix k d assume a: "row (action_table p) k ''$'' = Some (Shift d)"
  note e = reduce_phase_effect [OF assms(1)]
  have "row (action_table pb) k ''$'' = Some (Shift d)"
  proof (cases k)
    case (Sym x)
    with a e(4) [of x "''$''"] show ?thesis by simp
  next
    case (St i)
    show ?thesis
    proof (cases "i < length (states pb)")
      case True
      from a St e(2) [OF True, of "''$''"]
      have "cell_after n pb (iter (states pb ! i)) ''$'' (row (action_table pb) (St i) ''$'')
          = Some (Shift d)"
        by simp
      then have "row (action_table pb) (St i) ''$'' = Some (Shift d)"
        by (rule cell_after_shift)
      with St show ?thesis by simp
    next
      case False
      with a St e(3) [OF False, of "''$''"] show ?thesis by simp
    qed
  qed
  with assms(2) show False by (simp add: no_shift_on_end_def)
qed

lemma row_touch: "row (touch t k) k' = row t k'"
  by (simp add: row_def touch_def split: option.splits)

lemma parse_step_cursor:
  assumes ns: "no_shift_on_end p" and idx: "index < length inp" and end_marker: "last inp = ''$''"
    and step: "parse_step p inp stack index = Continue p' stack' index'"
  shows "index' < length inp \<and> no_shift_on_end p'"
proof -
  from step have ne: "stack \<noteq> []"
    by (auto simp: parse_step_def)
  from step idx ne obtain a where look: "row (action_table p) (last stack) (inp ! index) = Some a"
    by (cases "row (action_table p) (last stack) (inp ! index)") (auto simp: parse_step_def Let_def)
  show ?thesis
  proof (cases a)
    case (Shift dest)
    from parse_step_shift [OF ne idx look [unfolded Shift]] step
    have p': "p' = p\<lparr>action_table := touch (action_table p) (last stack)\<rparr>"
      and i': "index' = index + 1"
      by simp_all
    from look Shift ns have "inp ! index \<noteq> ''$''"
      by (auto simp: no_shift_on_end_def)
    moreover from idx have "inp \<noteq> []" by auto
    then have "inp ! (length inp - 1) = last inp" by (simp add: last_conv_nth)
    ultimately have "index \<noteq> length inp - 1"
      using end_marker by auto
    with idx i' have "index' < length inp" by arith
    moreover from ns have "no_shift_on_end p'"
      by (simp add: p' no_shift_on_end_def row_touch)
    ultimately show ?thesis by simp
  next
    case Accept
    from parse_step_accept [OF ne idx look [unfolded Accept]] step show ?thesis by simp
  next
    case (Reduce lhs rhs)
    from parse_step_reduce [OF ne idx look [unfolded Reduce]] step
    have "index' = index" and "action_table p' = touch (action_table p) (last stack)"
      by (auto simp: Let_def split: if_splits option.splits)
    with idx ns show ?thesis
      by (simp add: no_shift_on_end_def row_touch)
  qed
qed

lemma parse_run_cursor:
  assumes "no_shift_on_end p" and "index < length inp" and "last inp = ''$''"
    and "parse_run m p inp stack index = Continue p' stack' index'"
  shows "index' < length inp"
  using assms
proof (induction m arbitrary: p stack index)
  case 0
  then show ?case by simp
next
  case (Suc m)
  show ?case
  proof (cases "parse_step p inp stack index")
    case (Raise e q)
    with Suc.prems(4) show ?thesis by simp
  next
    case (Return b q)
    with Suc.prems(4) show ?thesis by simp
  next
    case (Continue q stack1 index1)
    from parse_step_cursor [OF Suc.prems(1,2,3) Continue]
    have "index1 < length inp" and "no_shift_on_end q" by simp_all
    moreover from Suc.prems(4) Continue
    have "parse_run m q inp stack1 index1 = Continue p' stack' index'" by simp
    ultimately show ?thesis using Suc.prems(3) by (intro Suc.IH [of q index1 stack1]) simp_all
  qed
qed

lemma items_no_shift_on_end:
  assumes free: "dollar_free g" and built: "items iter n (LRParser g ts nts s) = Some (Inr p)"
  shows "no_shift_on_end p"
proof -
  define P where "P = LRParser g ts nts s"
  from built obtain production rest pb where
    start: "map_of (grammar P) (start_symbol P) = Some (production # rest)"
    and bfs: "bfs_loop (P\<lparr>states := states P @ [closure P {(start_symbol P, production, 0)}]\<rparr>)
       [closure P {(start_symbol P, production, 0)} \<mapsto> 0]
       [closure P {(start_symbol P, production, 0)}] = Some (Inr pb)"
    and phase: "reduce_phase iter n pb = Some (Inr p)"
    unfolding P_def by (rule items_split)
  define I0 where "I0 = closure P {(start_symbol P, production, 0)}"
  define P1 where "P1 = P\<lparr>states := states P @ [I0]\<rparr>"
  have sg: "same_grammar P P1" by (simp add: P1_def same_grammar_def)
  from start have "(start_symbol P, production # rest) \<in> set (grammar P)"
    by (rule map_of_SomeD)
  then have "rhs_known P {(start_symbol P, production, 0)}"
    by (force simp: rhs_known_def)
  moreover have "I0 \<subseteq> {(start_symbol P, production, 0)} \<union> grammar_items P"
    unfolding I0_def closure_def by (rule closure_loop_subset)
  ultimately have "rhs_known P I0"
    using rhs_known_grammar_items [of P] unfolding rhs_known_def by blast
  then have known: "\<forall>S\<in>set [I0]. rhs_known P1 S"
    by (simp add: rhs_known_cong [OF sg])
  have free1: "dollar_free (grammar P1)"
    using free by (simp add: P1_def P_def LRParser_def)
  have ns1: "no_shift_on_end P1"
    by (simp add: no_shift_on_end_def P1_def P_def LRParser_def row_def)
  from bfs have "bfs_loop P1 [I0 \<mapsto> 0] [I0] = Some (Inr pb)"
    by (simp add: P1_def I0_def)
  from bfs_loop_end_marker [OF this refl free1 known ns1] have "no_shift_on_end pb" .
  with phase show ?thesis by (rule reduce_phase_no_shift)
qed

text \<open>
  Claim C10. Let no right-hand side of the grammar contain the end marker, and let a fresh
  parser object run \<^verbatim>\<open>items\<close>. Then no cell of the action table holds a shift under the end
  marker, and in every call of \<^verbatim>\<open>parse\<close>, after any number of passes of the driver loop, the
  cursor is a valid index of the input with the end marker appended: the read
  \<^verbatim>\<open>input_string[index]\<close> of the next pass is in bounds.
\<close>

theorem cursor_stays_in_bounds:
  assumes "dollar_free g" and "items iter n (LRParser g ts nts s) = Some (Inr p)"
  shows "no_shift_on_end p
    \<and> (\<forall>m input_string p' stack index.
          parse_run m p (input_string @ [''$'']) [St 0] 0 = Continue p' stack index \<longrightarrow>
          index < length (input_string @ [''$'']))"
proof -
  from assms have ns: "no_shift_on_end p" by (rule items_no_shift_on_end)
  have "index < length (input_string @ [''$''])"
    if "parse_run m p (input_string @ [''$'']) [St 0] 0 = Continue p' stack index"
    for m input_string p' stack index
    using ns _ _ that by (rule parse_run_cursor) simp_all
  with ns show ?thesis by blast
qed

theorem cursor_stays_in_bounds_witness:
  "\<exists>p. items sorted_list_of_set 3 tiny_parser = Some (Inr p)
     \<and> no_shift_on_end p
     \<and> (\<forall>m input_string p' stack index.
          parse_run m p (input_string @ [''$'']) [St 0] 0 = Continue p' stack index \<longrightarrow>
          index < length (input_string @ [''$'']))"
proof -
  from tiny_eval obtain p where
    built: "items sorted_list_of_set 3 tiny_parser = Some (Inr p)"
    by (auto split: option.splits sum.splits)
  then have built': "items sorted_list_of_set 3
      (LRParser [(S_prime, [[''S'']]), (''S'', [[''a'']])] [''a''] [''S''] S_prime) = Some (Inr p)"
    by (simp add: tiny_parser_def)
  have free: "dollar_free [(S_prime, [[''S'']]), (''S'', [[''a'']])]"
    by (simp add: dollar_free_def)
  from cursor_stays_in_bounds [OF free built'] built show ?thesis by blast
qed

section \<open>Termination of FIRST and FOLLOW\<close>

lemma returns_withinE:
  assumes "returns_within r T"
  obtains F where "r = Some (Inr F)" "F \<subseteq> T"
  using assms unfolding returns_within_def by blast

lemma first_productions_returns:
  assumes "\<forall>production\<in>set ps. production \<noteq> [] \<and>
      (hd production \<in> set ts \<or> returns_within (rec (hd production)) (set ts))"
    and "fs \<subseteq> set ts"
  shows "returns_within (first_productions rec ts ps fs) (set ts)"
  using assms
proof (induction ps arbitrary: fs)
  case Nil
  then show ?case by (simp add: returns_within_def)
next
  case (Cons production ps)
  from Cons.prems(1) obtain symbol rest where pr: "production = symbol # rest"
    by (cases production) auto
  from Cons.prems(1) have tail: "\<forall>production\<in>set ps. production \<noteq> [] \<and>
      (hd production \<in> set ts \<or> returns_within (rec (hd production)) (set ts))"
    by simp
  show ?case
  proof (cases "symbol \<in> set ts")
    case True
    with Cons.prems(2) have "insert symbol fs \<subseteq> set ts" by simp
    from Cons.IH [OF tail this] True show ?thesis by (simp add: pr)
  next
    case False
    with Cons.prems(1) have "returns_within (rec symbol) (set ts)" by (simp add: pr)
    then obtain F where F: "rec symbol = Some (Inr F)" "F \<subseteq> set ts"
      by (rule returns_withinE)
    with Cons.prems(2) have "fs \<union> F \<subseteq> set ts" by simp
    from Cons.IH [OF tail this] False F show ?thesis by (simp add: pr)
  qed
qed

lemma first_returns:
  assumes ranked: "\<forall>X\<in>D. \<exists>ps. map_of (grammar p) X = Some ps \<and>
      (\<forall>production\<in>set ps. production \<noteq> [] \<and>
         (hd production \<in> set (terminals p) \<or> hd production \<in> D \<and> r (hd production) < r X))"
  shows "X \<in> D \<Longrightarrow> r X < n \<Longrightarrow> returns_within (first n p X) (set (terminals p))"
proof (induction "r X" arbitrary: X n rule: less_induct)
  case less
  from less.prems(2) obtain m where n: "n = Suc m" by (cases n) auto
  from ranked less.prems(1) obtain ps where ps: "map_of (grammar p) X = Some ps"
    and heads: "\<forall>production\<in>set ps. production \<noteq> [] \<and>
         (hd production \<in> set (terminals p) \<or> hd production \<in> D \<and> r (hd production) < r X)"
    by blast
  have "\<forall>production\<in>set ps. production \<noteq> [] \<and>
      (hd production \<in> set (terminals p)
       \<or> returns_within (first m p (hd production)) (set (terminals p)))"
  proof
    fix production assume "production \<in> set ps"
    with heads have ne: "production \<noteq> []"
      and h: "hd production \<in> set (terminals p) \<or> hd production \<in> D \<and> r (hd production) < r X"
      by auto
    from h show "production \<noteq> [] \<and>
      (hd production \<in> set (terminals p)
       \<or> returns_within (first m p (hd production)) (set (terminals p)))"
    proof
      assume "hd production \<in> set (terminals p)"
      with ne show ?thesis by simp
    next
      assume a: "hd production \<in> D \<and> r (hd production) < r X"
      with less.prems(2) n have "r (hd production) < m" by simp
      with a less.hyps [of "hd production" m]
      have "returns_within (first m p (hd production)) (set (terminals p))" by simp
      with ne show ?thesis by simp
    qed
  qed
  then have "returns_within (first_productions (first m p) (terminals p) ps {}) (set (terminals p))"
    by (rule first_productions_returns) simp
  with ps n show ?case by simp
qed

lemma follow_symbols_returns:
  assumes "\<forall>i<length xs. xs ! i = N \<longrightarrow>
      (if Suc i < length xs
       then xs ! (Suc i) \<in> set ts \<or> returns_within (rf (xs ! (Suc i))) (set ts)
       else returns_within (ro lhs) T)"
    and "set ts \<subseteq> T" and "fs \<subseteq> T"
  shows "returns_within (follow_symbols rf ro ts N lhs xs fs) T"
  using assms
proof (induction xs arbitrary: fs)
  case Nil
  then show ?case by (simp add: returns_within_def)
next
  case (Cons x rest)
  have tail: "\<forall>i<length rest. rest ! i = N \<longrightarrow>
      (if Suc i < length rest
       then rest ! (Suc i) \<in> set ts \<or> returns_within (rf (rest ! (Suc i))) (set ts)
       else returns_within (ro lhs) T)"
  proof (intro allI impI)
    fix i assume "i < length rest" "rest ! i = N"
    with Cons.prems(1) [rule_format, of "Suc i"]
    show "if Suc i < length rest
       then rest ! (Suc i) \<in> set ts \<or> returns_within (rf (rest ! (Suc i))) (set ts)
       else returns_within (ro lhs) T"
      by (simp split: if_splits)
  qed
  show ?case
  proof (cases "x = N")
    case False
    with Cons.IH [OF tail Cons.prems(2,3)] show ?thesis by simp
  next
    case True
    show ?thesis
    proof (cases rest)
      case Nil
      with True Cons.prems(1) [rule_format, of 0] have "returns_within (ro lhs) T" by simp
      then obtain F where F: "ro lhs = Some (Inr F)" "F \<subseteq> T" by (rule returns_withinE)
      with Cons.prems(3) have "fs \<union> F \<subseteq> T" by simp
      with True Nil F show ?thesis by (simp add: returns_within_def)
    next
      case (Cons y rest')
      with True Cons.prems(1) [rule_format, of 0]
      have y: "y \<in> set ts \<or> returns_within (rf y) (set ts)" by simp
      show ?thesis
      proof (cases "y \<in> set ts")
        case yt: True
        with Cons.prems(2,3) have "insert y fs \<subseteq> T" by auto
        from Cons.IH [OF tail Cons.prems(2) this] True Cons yt show ?thesis by simp
      next
        case yn: False
        with y obtain F where F: "rf y = Some (Inr F)" "F \<subseteq> set ts"
          by (auto elim: returns_withinE)
        with Cons.prems(2,3) have "fs \<union> F \<subseteq> T" by auto
        from Cons.IH [OF tail Cons.prems(2) this] True Cons yn F show ?thesis by simp
      qed
    qed
  qed
qed

lemma follow_productions_returns:
  assumes "\<forall>production\<in>set ps. \<forall>i<length production. production ! i = N \<longrightarrow>
      (if Suc i < length production
       then production ! (Suc i) \<in> set ts \<or> returns_within (rf (production ! (Suc i))) (set ts)
       else returns_within (ro lhs) T)"
    and "set ts \<subseteq> T" and "fs \<subseteq> T"
  shows "returns_within (follow_productions rf ro ts N lhs ps fs) T"
  using assms
proof (induction ps arbitrary: fs)
  case Nil
  then show ?case by (simp add: returns_within_def)
next
  case (Cons production ps)
  from Cons.prems(1) have "\<forall>i<length production. production ! i = N \<longrightarrow>
      (if Suc i < length production
       then production ! (Suc i) \<in> set ts \<or> returns_within (rf (production ! (Suc i))) (set ts)
       else returns_within (ro lhs) T)"
    by simp
  then have "returns_within (follow_symbols rf ro ts N lhs production fs) T"
    using Cons.prems(2,3) by (rule follow_symbols_returns)
  then obtain F where F: "follow_symbols rf ro ts N lhs production fs = Some (Inr F)" "F \<subseteq> T"
    by (rule returns_withinE)
  from Cons.prems(1) have "\<forall>production\<in>set ps. \<forall>i<length production. production ! i = N \<longrightarrow>
      (if Suc i < length production
       then production ! (Suc i) \<in> set ts \<or> returns_within (rf (production ! (Suc i))) (set ts)
       else returns_within (ro lhs) T)"
    by simp
  from Cons.IH [OF this Cons.prems(2) F(2)] F(1) show ?case by simp
qed

lemma follow_grammar_returns:
  assumes "\<forall>entry\<in>set g. \<forall>production\<in>set (snd entry). \<forall>i<length production.
      production ! i = N \<longrightarrow>
      (if Suc i < length production
       then production ! (Suc i) \<in> set ts \<or> returns_within (rf (production ! (Suc i))) (set ts)
       else returns_within (ro (fst entry)) T)"
    and "set ts \<subseteq> T" and "fs \<subseteq> T"
  shows "returns_within (follow_grammar rf ro ts N g fs) T"
  using assms
proof (induction g arbitrary: fs)
  case Nil
  then show ?case by (simp add: returns_within_def)
next
  case (Cons entry g)
  obtain lhs ps where entry: "entry = (lhs, ps)" by (cases entry) auto
  from Cons.prems(1) have "\<forall>production\<in>set (snd entry). \<forall>i<length production.
      production ! i = N \<longrightarrow>
      (if Suc i < length production
       then production ! (Suc i) \<in> set ts \<or> returns_within (rf (production ! (Suc i))) (set ts)
       else returns_within (ro (fst entry)) T)"
    by simp
  then have "\<forall>production\<in>set ps. \<forall>i<length production. production ! i = N \<longrightarrow>
      (if Suc i < length production
       then production ! (Suc i) \<in> set ts \<or> returns_within (rf (production ! (Suc i))) (set ts)
       else returns_within (ro lhs) T)"
    unfolding entry fst_conv snd_conv .
  then have "returns_within (follow_productions rf ro ts N lhs ps fs) T"
    using Cons.prems(2,3) by (rule follow_productions_returns)
  then obtain F where F: "follow_productions rf ro ts N lhs ps fs = Some (Inr F)" "F \<subseteq> T"
    by (rule returns_withinE)
  from Cons.prems(1) have "\<forall>entry\<in>set g. \<forall>production\<in>set (snd entry). \<forall>i<length production.
      production ! i = N \<longrightarrow>
      (if Suc i < length production
       then production ! (Suc i) \<in> set ts \<or> returns_within (rf (production ! (Suc i))) (set ts)
       else returns_within (ro (fst entry)) T)"
    by simp
  from Cons.IH [OF this Cons.prems(2) F(2)] F(1) show ?case by (simp add: entry)
qed

lemma follow_returns:
  assumes first_ranked: "\<forall>X\<in>D. \<exists>ps. map_of (grammar p) X = Some ps \<and>
      (\<forall>production\<in>set ps. production \<noteq> [] \<and>
         (hd production \<in> set (terminals p) \<or> hd production \<in> D \<and> r1 (hd production) < r1 X))"
    and bound: "\<forall>X\<in>D. r1 X < K"
    and follow_ranked: "\<forall>N\<in>Q. \<forall>entry\<in>set (grammar p). \<forall>production\<in>set (snd entry).
      \<forall>i<length production. production ! i = N \<longrightarrow>
        (if Suc i < length production
         then production ! (Suc i) \<in> set (terminals p) \<or> production ! (Suc i) \<in> D
         else fst entry \<in> Q \<and> r2 (fst entry) < r2 N)"
  shows "N \<in> Q \<Longrightarrow> r2 N + K < n \<Longrightarrow>
     returns_within (follow n p N) (insert ''$'' (set (terminals p)))"
proof (induction "r2 N" arbitrary: N n rule: less_induct)
  case less
  from less.prems(2) obtain m where n: "n = Suc m" by (cases n) auto
  let ?T = "insert ''$'' (set (terminals p))"
  have "\<forall>entry\<in>set (grammar p). \<forall>production\<in>set (snd entry). \<forall>i<length production.
      production ! i = N \<longrightarrow>
      (if Suc i < length production
       then production ! (Suc i) \<in> set (terminals p)
            \<or> returns_within (first m p (production ! (Suc i))) (set (terminals p))
       else returns_within (follow m p (fst entry)) ?T)"
  proof (intro ballI allI impI)
    fix entry production i
    assume e: "entry \<in> set (grammar p)" and pr: "production \<in> set (snd entry)"
      and i: "i < length production" and at: "production ! i = N"
    from follow_ranked less.prems(1) e pr i at
    have c: "if Suc i < length production
         then production ! (Suc i) \<in> set (terminals p) \<or> production ! (Suc i) \<in> D
         else fst entry \<in> Q \<and> r2 (fst entry) < r2 N"
      by blast
    show "if Suc i < length production
       then production ! (Suc i) \<in> set (terminals p)
            \<or> returns_within (first m p (production ! (Suc i))) (set (terminals p))
       else returns_within (follow m p (fst entry)) ?T"
    proof (cases "Suc i < length production")
      case True
      with c have "production ! (Suc i) \<in> set (terminals p) \<or> production ! (Suc i) \<in> D"
        by simp
      then have "production ! (Suc i) \<in> set (terminals p)
            \<or> returns_within (first m p (production ! (Suc i))) (set (terminals p))"
      proof
        assume "production ! (Suc i) \<in> set (terminals p)"
        then show ?thesis ..
      next
        assume d: "production ! (Suc i) \<in> D"
        with bound less.prems(2) n have "r1 (production ! (Suc i)) < m" by fastforce
        from first_returns [OF first_ranked d this] show ?thesis ..
      qed
      with True show ?thesis by simp
    next
      case False
      with c have q: "fst entry \<in> Q" and lt: "r2 (fst entry) < r2 N" by simp_all
      from lt less.prems(2) n have "r2 (fst entry) + K < m" by simp
      from less.hyps [OF lt q this] False show ?thesis by simp
    qed
  qed
  then have "returns_within
      (follow_grammar (first m p) (follow m p) (terminals p) N (grammar p)
         (if N = start_symbol p then {''$''} else {})) ?T"
    by (rule follow_grammar_returns) auto
  with n show ?case by simp
qed

text \<open>
  Claim C1, as amended. \<^verbatim>\<open>first\<close> and \<^verbatim>\<open>follow\<close> have no visited or memoization guard; they
  return when the recursion is well-founded. Let \<open>D\<close> be a set of non-terminals, each with
  non-empty alternatives that begin with a terminal or with a member of \<open>D\<close> of smaller
  rank: then \<^verbatim>\<open>first\<close> returns a finite set of terminals on every member of \<open>D\<close>, at
  recursion depth above its rank. Let \<open>Q\<close> be a set of symbols such that wherever a member
  \<open>N\<close> occurs in an alternative, the next symbol is a terminal or a member of \<open>D\<close>, or
  \<open>N\<close> ends the alternative and the left-hand side is a member of \<open>Q\<close> of smaller rank:
  then \<^verbatim>\<open>follow\<close> returns a finite set of terminals (the end marker included) on every
  member of \<open>Q\<close>.
\<close>

theorem first_follow_return:
  assumes first_ranked: "\<forall>X\<in>D. \<exists>ps. map_of (grammar p) X = Some ps \<and>
      (\<forall>production\<in>set ps. production \<noteq> [] \<and>
         (hd production \<in> set (terminals p) \<or> hd production \<in> D \<and> rank_first (hd production) < rank_first X))"
    and bound: "\<forall>X\<in>D. rank_first X < K"
    and follow_ranked: "\<forall>N\<in>Q. \<forall>entry\<in>set (grammar p). \<forall>production\<in>set (snd entry).
      \<forall>i<length production. production ! i = N \<longrightarrow>
        (if Suc i < length production
         then production ! (Suc i) \<in> set (terminals p) \<or> production ! (Suc i) \<in> D
         else fst entry \<in> Q \<and> rank_follow (fst entry) < rank_follow N)"
  shows "(\<forall>X\<in>D. \<forall>n>rank_first X. \<exists>F. first n p X = Some (Inr F) \<and> finite F \<and> F \<subseteq> set (terminals p))
    \<and> (\<forall>N\<in>Q. \<forall>n>rank_follow N + K. \<exists>F. follow n p N = Some (Inr F) \<and> finite F
            \<and> F \<subseteq> insert ''$'' (set (terminals p)))"
proof (intro conjI ballI allI impI)
  fix X n assume "X \<in> D" "rank_first X < n"
  with first_ranked have "returns_within (first n p X) (set (terminals p))"
    by (rule first_returns)
  then obtain F where "first n p X = Some (Inr F)" "F \<subseteq> set (terminals p)"
    by (rule returns_withinE)
  moreover from this(2) have "finite F" by (rule finite_subset) simp
  ultimately show "\<exists>F. first n p X = Some (Inr F) \<and> finite F \<and> F \<subseteq> set (terminals p)"
    by blast
next
  fix N n assume "N \<in> Q" "rank_follow N + K < n"
  with first_ranked bound follow_ranked
  have "returns_within (follow n p N) (insert ''$'' (set (terminals p)))"
    by (rule follow_returns)
  then obtain F where "follow n p N = Some (Inr F)" "F \<subseteq> insert ''$'' (set (terminals p))"
    by (rule returns_withinE)
  moreover from this(2) have "finite F" by (rule finite_subset) simp
  ultimately show "\<exists>F. follow n p N = Some (Inr F) \<and> finite F
      \<and> F \<subseteq> insert ''$'' (set (terminals p))"
    by blast
qed

lemma example_first_ranked:
  "\<forall>X\<in>{''F''}. \<exists>ps. map_of (grammar example_parser) X = Some ps \<and>
      (\<forall>production\<in>set ps. production \<noteq> [] \<and>
         (hd production \<in> set (terminals example_parser)
          \<or> hd production \<in> {''F''} \<and> zero_rank (hd production) < zero_rank X))"
  by (simp add: example_parser_def example_grammar_def LRParser_def S_prime_def)

lemma example_fields:
  "grammar example_parser = example_grammar"
  "terminals example_parser = [''+'', ''*'', ''('', '')'', ''id'', ''$'']"
  by (simp_all add: example_parser_def LRParser_def)

lemma example_follow_ranked_start:
  "\<forall>entry\<in>set (grammar example_parser).
     \<forall>production\<in>set (snd entry). \<forall>i<length production. production ! i = S_prime \<longrightarrow>
        (if Suc i < length production
         then production ! (Suc i) \<in> set (terminals example_parser) \<or> production ! (Suc i) \<in> {''F''}
         else fst entry \<in> {S_prime, ''S'', ''E'', ''T'', ''F''}
              \<and> example_rank (fst entry) < example_rank S_prime)"
  by (simp add: example_fields example_grammar_def S_prime_def example_rank_def All_less_Suc)

lemma example_follow_ranked_S:
  "\<forall>entry\<in>set (grammar example_parser).
     \<forall>production\<in>set (snd entry). \<forall>i<length production. production ! i = ''S'' \<longrightarrow>
        (if Suc i < length production
         then production ! (Suc i) \<in> set (terminals example_parser) \<or> production ! (Suc i) \<in> {''F''}
         else fst entry \<in> {S_prime, ''S'', ''E'', ''T'', ''F''}
              \<and> example_rank (fst entry) < example_rank ''S'')"
  by (simp add: example_fields example_grammar_def S_prime_def example_rank_def All_less_Suc)

lemma example_follow_ranked_E:
  "\<forall>entry\<in>set (grammar example_parser).
     \<forall>production\<in>set (snd entry). \<forall>i<length production. production ! i = ''E'' \<longrightarrow>
        (if Suc i < length production
         then production ! (Suc i) \<in> set (terminals example_parser) \<or> production ! (Suc i) \<in> {''F''}
         else fst entry \<in> {S_prime, ''S'', ''E'', ''T'', ''F''}
              \<and> example_rank (fst entry) < example_rank ''E'')"
  by (simp add: example_fields example_grammar_def S_prime_def example_rank_def All_less_Suc)

lemma example_follow_ranked_T:
  "\<forall>entry\<in>set (grammar example_parser).
     \<forall>production\<in>set (snd entry). \<forall>i<length production. production ! i = ''T'' \<longrightarrow>
        (if Suc i < length production
         then production ! (Suc i) \<in> set (terminals example_parser) \<or> production ! (Suc i) \<in> {''F''}
         else fst entry \<in> {S_prime, ''S'', ''E'', ''T'', ''F''}
              \<and> example_rank (fst entry) < example_rank ''T'')"
  by (simp add: example_fields example_grammar_def S_prime_def example_rank_def All_less_Suc)

lemma example_follow_ranked_F:
  "\<forall>entry\<in>set (grammar example_parser).
     \<forall>production\<in>set (snd entry). \<forall>i<length production. production ! i = ''F'' \<longrightarrow>
        (if Suc i < length production
         then production ! (Suc i) \<in> set (terminals example_parser) \<or> production ! (Suc i) \<in> {''F''}
         else fst entry \<in> {S_prime, ''S'', ''E'', ''T'', ''F''}
              \<and> example_rank (fst entry) < example_rank ''F'')"
  by (simp add: example_fields example_grammar_def S_prime_def example_rank_def All_less_Suc)

lemma example_follow_ranked:
  "\<forall>N\<in>{S_prime, ''S'', ''E'', ''T'', ''F''}. \<forall>entry\<in>set (grammar example_parser).
     \<forall>production\<in>set (snd entry). \<forall>i<length production. production ! i = N \<longrightarrow>
        (if Suc i < length production
         then production ! (Suc i) \<in> set (terminals example_parser) \<or> production ! (Suc i) \<in> {''F''}
         else fst entry \<in> {S_prime, ''S'', ''E'', ''T'', ''F''}
              \<and> example_rank (fst entry) < example_rank N)"
proof
  fix N :: symbol assume "N \<in> {S_prime, ''S'', ''E'', ''T'', ''F''}"
  then consider "N = S_prime" | "N = ''S''" | "N = ''E''" | "N = ''T''" | "N = ''F''"
    by blast
  then show "\<forall>entry\<in>set (grammar example_parser).
     \<forall>production\<in>set (snd entry). \<forall>i<length production. production ! i = N \<longrightarrow>
        (if Suc i < length production
         then production ! (Suc i) \<in> set (terminals example_parser) \<or> production ! (Suc i) \<in> {''F''}
         else fst entry \<in> {S_prime, ''S'', ''E'', ''T'', ''F''}
              \<and> example_rank (fst entry) < example_rank N)"
  proof cases
    case 1
    show ?thesis unfolding 1 by (rule example_follow_ranked_start)
  next
    case 2
    show ?thesis unfolding 2 by (rule example_follow_ranked_S)
  next
    case 3
    show ?thesis unfolding 3 by (rule example_follow_ranked_E)
  next
    case 4
    show ?thesis unfolding 4 by (rule example_follow_ranked_T)
  next
    case 5
    show ?thesis unfolding 5 by (rule example_follow_ranked_F)
  qed
qed

theorem first_follow_return_witness:
  "(\<exists>F. first 1 example_parser ''F'' = Some (Inr F) \<and> finite F
        \<and> F \<subseteq> set (terminals example_parser))
   \<and> (\<exists>F. follow 6 example_parser ''F'' = Some (Inr F) \<and> finite F
        \<and> F \<subseteq> insert ''$'' (set (terminals example_parser)))"
proof -
  have bound: "\<forall>X\<in>{''F''}. zero_rank X < 1" by (simp add: zero_rank_def)
  have t: "(\<forall>X\<in>{''F''}. \<forall>n>zero_rank X. \<exists>F. first n example_parser X = Some (Inr F) \<and> finite F
          \<and> F \<subseteq> set (terminals example_parser))
    \<and> (\<forall>N\<in>{S_prime, ''S'', ''E'', ''T'', ''F''}. \<forall>n>example_rank N + 1.
          \<exists>F. follow n example_parser N = Some (Inr F) \<and> finite F
            \<and> F \<subseteq> insert ''$'' (set (terminals example_parser)))"
    using example_first_ranked bound example_follow_ranked
    by (rule first_follow_return
        [where D = "{''F''}" and rank_first = zero_rank and K = 1 and p = example_parser
           and Q = "{S_prime, ''S'', ''E'', ''T'', ''F''}" and rank_follow = example_rank])
  have "zero_rank ''F'' < 1" by (simp add: zero_rank_def)
  with t have a: "\<exists>F. first 1 example_parser ''F'' = Some (Inr F) \<and> finite F
        \<and> F \<subseteq> set (terminals example_parser)"
    by blast
  have "example_rank ''F'' + 1 < 6" by (simp add: example_rank_def)
  with t have "\<exists>F. follow 6 example_parser ''F'' = Some (Inr F) \<and> finite F
        \<and> F \<subseteq> insert ''$'' (set (terminals example_parser))"
    by blast
  with a show ?thesis by (rule conjI)
qed

text \<open>
  The claim as written fails. In the embedded grammar \<^verbatim>\<open>E \<rightarrow> E + T\<close> makes \<^verbatim>\<open>first('E')\<close> call
  itself with the same argument, and in \<^verbatim>\<open>S' \<rightarrow> S, S \<rightarrow> a S | a\<close> the alternative \<^verbatim>\<open>a S\<close> makes
  \<^verbatim>\<open>follow('S')\<close> do so: no recursion depth is enough for either call to return.
\<close>

lemma example_first_E: "first n example_parser ''E'' = None"
proof (induction n)
  case 0
  show ?case by simp
next
  case (Suc n)
  then show ?case
    by (simp add: example_parser_def example_grammar_def LRParser_def S_prime_def)
qed

lemma right_rec_follow_start:
  "follow (Suc n) right_rec_parser S_prime = Some (Inr {''$''})"
  by (simp add: right_rec_parser_def LRParser_def S_prime_def)

lemma right_rec_follow_S: "follow n right_rec_parser ''S'' = None"
proof (induction n)
  case 0
  show ?case by simp
next
  case (Suc n)
  show ?case
  proof (cases n)
    case 0
    then show ?thesis
      by (simp add: right_rec_parser_def LRParser_def S_prime_def)
  next
    case (Suc m)
    have g: "grammar right_rec_parser = [(S_prime, [[''S'']]), (''S'', [[''a'', ''S''], [''a'']])]"
      and t: "terminals right_rec_parser = [''a'', ''$'']"
      and st: "start_symbol right_rec_parser = S_prime"
      by (simp_all add: right_rec_parser_def LRParser_def)
    have ne: "''S'' \<noteq> S_prime" by (simp add: S_prime_def)
    from Suc.IH Suc right_rec_follow_start [of m] show ?thesis
      by (simp add: g t st ne)
  qed
qed

theorem unguarded_recursion_counterexample:
  "\<not> (\<exists>n result. first n example_parser ''E'' = Some result)
   \<and> \<not> (\<exists>n result. follow n right_rec_parser ''S'' = Some result)"
  by (simp add: example_first_E right_rec_follow_S)

section \<open>The embedded example\<close>

lemma listed_finite: "listed S \<Longrightarrow> finite S"
  unfolding listed_def by (metis List.finite_set)

lemma reduce_item_incomplete: "\<not> is_complete it \<Longrightarrow> reduce_item n i it p = Some (Inr p)"
  by (cases it) (simp add: is_complete_def reduce_item_def)

lemma fold_outcome_filter:
  assumes "\<And>x s. \<not> P x \<Longrightarrow> f x s = Some (Inr s)"
  shows "fold_outcome f (filter P xs) s = fold_outcome f xs s"
proof (induction xs arbitrary: s)
  case Nil
  show ?case by simp
next
  case (Cons x xs)
  show ?case
  proof (cases "P x")
    case True
    then show ?thesis by (simp add: Cons.IH cong: option.case_cong sum.case_cong)
  next
    case False
    with assms [of x s] show ?thesis by (simp add: Cons.IH)
  qed
qed

lemma fold_outcome_cong:
  assumes "\<And>x s. x \<in> set xs \<Longrightarrow> f x s = g x s"
  shows "fold_outcome f xs s = fold_outcome g xs s"
  using assms
proof (induction xs arbitrary: s)
  case Nil
  show ?case by simp
next
  case (Cons x xs)
  have "f x s = g x s" by (rule Cons.prems) simp
  moreover have "fold_outcome f xs s' = fold_outcome g xs s'" for s'
    by (rule Cons.IH) (simp add: Cons.prems)
  ultimately show ?case by (simp cong: option.case_cong sum.case_cong)
qed

lemma filter_unique:
  assumes "distinct xs" and "distinct ys" and "set xs = set ys"
    and "\<forall>x\<in>set xs. \<forall>y\<in>set xs. P x \<and> P y \<longrightarrow> x = y"
  shows "filter P xs = filter P ys"
proof -
  have d: "distinct (filter P xs)" "distinct (filter P ys)"
    using assms(1,2) by simp_all
  have s: "set (filter P xs) = set (filter P ys)"
    using assms(3) by auto
  have "length (filter P xs) = card (set (filter P xs))"
    using d(1) by (rule distinct_card [symmetric])
  also have "\<dots> = card (set (filter P ys))"
    by (simp only: s)
  also have "\<dots> = length (filter P ys)"
    using d(2) by (rule distinct_card)
  finally have len: "length (filter P xs) = length (filter P ys)" .
  show ?thesis
  proof (cases "filter P xs")
    case Nil
    with len show ?thesis by simp
  next
    case (Cons a as)
    with len obtain b bs where ys: "filter P ys = b # bs"
      by (cases "filter P ys") auto
    have mem: "\<And>z. z \<in> set (filter P xs) \<Longrightarrow> z = a"
    proof -
      fix z assume "z \<in> set (filter P xs)"
      then have "z \<in> set xs" "P z" by simp_all
      moreover from Cons have "a \<in> set (filter P xs)" by simp
      then have "a \<in> set xs" "P a" by simp_all
      ultimately show "z = a" using assms(4) by blast
    qed
    have "as = []"
    proof (cases as)
      case Nil
      then show ?thesis .
    next
      case (Cons a' as')
      with \<open>filter P xs = a # as\<close> have "a' \<in> set (filter P xs)" by simp
      then have "a' = a" by (rule mem)
      with Cons \<open>filter P xs = a # as\<close> d(1) show ?thesis by simp
    qed
    moreover from ys s have "b \<in> set (filter P xs)" by simp
    then have "b = a" by (rule mem)
    moreover have "bs = []"
      using len ys Cons \<open>as = []\<close> by simp
    ultimately show ?thesis using Cons ys by simp
  qed
qed

lemma reduce_state_iter:
  assumes "one_complete_item S"
    and "set (iter S) = S" "distinct (iter S)" and "set (iter' S) = S" "distinct (iter' S)"
  shows "reduce_state iter n (i, S) p = reduce_state iter' n (i, S) p"
proof -
  from assms have "filter is_complete (iter S) = filter is_complete (iter' S)"
    by (intro filter_unique) (auto simp: one_complete_item_def)
  then have "fold_outcome (reduce_item n i) (filter is_complete (iter S)) p
      = fold_outcome (reduce_item n i) (filter is_complete (iter' S)) p"
    by simp
  then show ?thesis
    by (simp add: reduce_state_pair fold_outcome_filter reduce_item_incomplete)
qed

lemma reduce_phase_iter:
  assumes "\<forall>S\<in>set (states pb). one_complete_item S \<and> finite S"
    and "\<forall>S. finite S \<longrightarrow> set (iter S) = S \<and> distinct (iter S)"
    and "\<forall>S. finite S \<longrightarrow> set (iter' S) = S \<and> distinct (iter' S)"
  shows "reduce_phase iter n pb = reduce_phase iter' n pb"
  unfolding reduce_phase_def
proof (rule fold_outcome_cong)
  fix x :: "nat \<times> item set" and s
  assume mem: "x \<in> set (enumerate 0 (states pb))"
  obtain i S where x: "x = (i, S)" by (cases x) auto
  from mem have "i < length (states pb)" "states pb ! i = S"
    by (simp_all add: x in_set_enumerate_eq)
  then have S: "S \<in> set (states pb)" by auto
  from S assms(1) have one: "one_complete_item S" and "finite S" by simp_all
  with assms(2,3) have "set (iter S) = S" "distinct (iter S)" "set (iter' S) = S" "distinct (iter' S)"
    by simp_all
  with one show "reduce_state iter n x s = reduce_state iter' n x s"
    unfolding x by (rule reduce_state_iter)
qed

lemma items_iter:
  assumes built: "items iter' n p0 = Some (Inr p)"
    and one: "\<forall>S\<in>set (states p). one_complete_item S \<and> finite S"
    and "\<forall>S. finite S \<longrightarrow> set (iter S) = S \<and> distinct (iter S)"
    and "\<forall>S. finite S \<longrightarrow> set (iter' S) = S \<and> distinct (iter' S)"
  shows "items iter n p0 = Some (Inr p)"
proof -
  from built obtain production rest pb where
    start: "map_of (grammar p0) (start_symbol p0) = Some (production # rest)"
    and bfs: "bfs_loop (p0\<lparr>states := states p0 @ [closure p0 {(start_symbol p0, production, 0)}]\<rparr>)
       [closure p0 {(start_symbol p0, production, 0)} \<mapsto> 0]
       [closure p0 {(start_symbol p0, production, 0)}] = Some (Inr pb)"
    and phase: "reduce_phase iter' n pb = Some (Inr p)"
    by (rule items_split)
  from reduce_phase_effect(1) [OF phase] have "states p = states pb"
    by (simp add: reduce_frame_def)
  with one have "\<forall>S\<in>set (states pb). one_complete_item S \<and> finite S" by simp
  from reduce_phase_iter [OF this assms(3,4)] phase
  have "reduce_phase iter n pb = Some (Inr p)" by simp
  with start bfs show ?thesis
    by (simp add: items_def Let_def)
qed

text \<open>
  The embedded grammar, built with the state sets visited in sorted order: the parse of
  \<^verbatim>\<open>id * id + id\<close> returns \<^verbatim>\<open>True\<close>, and no state holds two complete items.
\<close>

lemma example_eval:
  "(case items sorted_list_of_set 5 example_parser of
      Some (Inr p) \<Rightarrow>
        map_option fst (parse p [''id'', ''*'', ''id'', ''+'', ''id'']) = Some (Inr True)
        \<and> list_all one_complete_item (states p) \<and> list_all listed (states p)
    | _ \<Rightarrow> False)"
  by code_simp

text \<open>
  Claim C9. For the grammar embedded in the script, whatever order the second loop of
  \<^verbatim>\<open>items\<close> visits the members of each state in, \<^verbatim>\<open>items\<close> returns, and on the tables it
  has built \<^verbatim>\<open>parse(['id', '*', 'id', '+', 'id'])\<close> ends through the accept action and
  returns \<^verbatim>\<open>True\<close>.
\<close>

theorem example_parse_accepts:
  assumes "\<forall>S. finite S \<longrightarrow> set (iter S) = S \<and> distinct (iter S)"
  shows "\<exists>n p p'. items iter n example_parser = Some (Inr p)
     \<and> parse p [''id'', ''*'', ''id'', ''+'', ''id''] = Some (Inr True, p')"
proof -
  from example_eval obtain p where
    built: "items sorted_list_of_set 5 example_parser = Some (Inr p)"
    and accepted: "map_option fst (parse p [''id'', ''*'', ''id'', ''+'', ''id'']) = Some (Inr True)"
    and one: "list_all one_complete_item (states p)" and fin: "list_all listed (states p)"
    by (auto split: option.splits sum.splits)
  from one fin have one': "\<forall>S\<in>set (states p). one_complete_item S \<and> finite S"
    by (auto simp: list_all_iff listed_finite)
  have sorted: "\<forall>S::item set. finite S \<longrightarrow>
      set (sorted_list_of_set S) = S \<and> distinct (sorted_list_of_set S)"
    by simp
  from built one' assms sorted have "items iter 5 example_parser = Some (Inr p)"
    by (rule items_iter)
  moreover from accepted obtain p' where
    "parse p [''id'', ''*'', ''id'', ''+'', ''id''] = Some (Inr True, p')"
    by (cases "parse p [''id'', ''*'', ''id'', ''+'', ''id'']") auto
  ultimately show ?thesis by blast
qed

theorem example_parse_accepts_witness:
  "\<exists>n p p'. items sorted_list_of_set n example_parser = Some (Inr p)
     \<and> parse p [''id'', ''*'', ''id'', ''+'', ''id''] = Some (Inr True, p')"
proof -
  have "\<forall>S::item set. finite S \<longrightarrow>
      set (sorted_list_of_set S) = S \<and> distinct (sorted_list_of_set S)"
    by simp
  then show ?thesis by (rule example_parse_accepts)
qed

end
